theory Spec2Isabelle
  imports Main
begin

section \<open>Text as the scripts see it\<close>

text \<open>
  The tools are Deno scripts working on JavaScript strings. A string is modelled as a
  \<^typ>\<open>string\<close>, every \<^typ>\<open>char\<close> standing for one UTF-16 code unit in the
  range U+0000 to U+00FF. The character classes below are the ones the regular
  expressions of the scripts use, restricted to that range.
\<close>

abbreviation LF :: char where "LF \<equiv> CHR 0x0A"
abbreviation CR :: char where "CR \<equiv> CHR 0x0D"

definition is_digit :: "char \<Rightarrow> bool" where
  \<comment> \<open>\<^verbatim>\<open>\d\<close>: the ten ASCII digits\<close>
  "is_digit c = (let n = (of_char c :: nat) in 48 \<le> n \<and> n \<le> 57)"

definition is_space :: "char \<Rightarrow> bool" where
  \<comment> \<open>\<^verbatim>\<open>\s\<close>, also what \<^verbatim>\<open>trim()\<close> removes: TAB, LF, VT, FF, CR, space, NBSP\<close>
  "is_space c = (c = CHR 0x09 \<or> c = CHR 0x0A \<or> c = CHR 0x0B \<or> c = CHR 0x0C
     \<or> c = CHR 0x0D \<or> c = CHR 0x20 \<or> c = CHR 0xA0)"

definition is_line_terminator :: "char \<Rightarrow> bool" where
  \<comment> \<open>what \<^verbatim>\<open>.\<close> refuses to match when the \<^verbatim>\<open>s\<close> flag is absent\<close>
  "is_line_terminator c = (c = LF \<or> c = CR)"

definition canon :: "char \<Rightarrow> char" where
  \<comment> \<open>the canonical form two characters must share to match under the \<^verbatim>\<open>i\<close> flag:
      the upper-case letter, for the ASCII and the Latin-1 lower-case letters\<close>
  "canon c = (let n = (of_char c :: nat) in
     if (97 \<le> n \<and> n \<le> 122) \<or> (224 \<le> n \<and> n \<le> 254 \<and> n \<noteq> 247)
     then char_of (n - 32) else c)"

fun ci_prefix :: "string \<Rightarrow> string \<Rightarrow> bool" where
  \<comment> \<open>a literal of the pattern, matched case-insensitively at the start of the text\<close>
  "ci_prefix [] t = True"
| "ci_prefix (p # ps) [] = False"
| "ci_prefix (p # ps) (c # cs) = (canon p = canon c \<and> ci_prefix ps cs)"

fun join_with :: "string \<Rightarrow> string list \<Rightarrow> string" where
  \<comment> \<open>\<^verbatim>\<open>Array.prototype.join\<close>\<close>
  "join_with sep [] = []"
| "join_with sep [l] = l"
| "join_with sep (l # m # ls) = l @ sep @ join_with sep (m # ls)"

section \<open>Version bump of the release scripts\<close>

text \<open>
  \<^verbatim>\<open>semver.SemVer\<close> of \<^verbatim>\<open>@std/semver\<close>: three numbers, the prerelease identifiers
  and the build identifiers. The numbers are JavaScript numbers, that is doubles, holding
  non-negative integers; a field of type \<^typ>\<open>nat\<close> stands for the integer the double
  holds. Every integer up to \<^verbatim>\<open>Number.MAX_SAFE_INTEGER\<close> is a double, and the sum of
  such a number and one is exact. Beyond it the doubles thin out and a sum is rounded to
  the nearest double, to the one with the even significand when two are equally near.
\<close>

record SemVer =
  major :: nat
  minor :: nat
  patch :: nat
  prerelease :: "string list"
  build :: "string list"

datatype failure =
    Usage string        \<comment> \<open>usage text on stderr, exit code 1\<close>
  | ExitError string    \<comment> \<open>\<^verbatim>\<open>exitError(msg)\<close>: the message on stderr, exit code 1\<close>
  | ParseError string   \<comment> \<open>\<^verbatim>\<open>semver.parse\<close> threw on this input\<close>

definition safe_integer :: "nat \<Rightarrow> bool" where
  \<comment> \<open>at most \<^verbatim>\<open>Number.MAX_SAFE_INTEGER\<close>, which is \<^verbatim>\<open>2^53 - 1\<close>\<close>
  "safe_integer n = (n \<le> 9007199254740991)"

definition js_inc :: "nat \<Rightarrow> nat" where
  \<comment> \<open>\<^verbatim>\<open>x++\<close> on a number holding the integer \<open>x\<close>: exact below \<^verbatim>\<open>2^53\<close>; from there to
      \<^verbatim>\<open>2^54\<close> the doubles are the even integers and \<open>x + 1\<close> lies half way between \<open>x\<close>
      and \<open>x + 2\<close>, so the one with the even significand is taken; from \<^verbatim>\<open>2^54\<close> on the
      nearest double is \<open>x\<close> itself\<close>
  "js_inc x =
     (if x < 9007199254740992 then x + 1
      else if x < 18014398509481984 \<and> odd (x div 2) then x + 2
      else x)"

definition bump :: "string \<Rightarrow> SemVer \<Rightarrow> SemVer" where
  \<comment> \<open>\<^verbatim>\<open>tools/release.ts\<close>: the branch taken when \<^verbatim>\<open>versionArg\<close> is one of the three
      keywords; its last \<^verbatim>\<open>else\<close> is the patch bump\<close>
  "bump versionArg next =
     (let next' =
        (if versionArg = ''major''
           then next\<lparr>major := js_inc (major next), minor := 0, patch := 0\<rparr>
         else if versionArg = ''minor''
           then next\<lparr>minor := js_inc (minor next), patch := 0\<rparr>
         else next\<lparr>patch := js_inc (patch next)\<rparr>)
      in next'\<lparr>prerelease := []\<rparr>)"

definition release_next ::
  "(string \<Rightarrow> SemVer option) \<Rightarrow> string \<Rightarrow> string \<Rightarrow> string \<Rightarrow> failure + SemVer" where
  \<comment> \<open>\<^verbatim>\<open>tools/release.ts\<close>, from the argument check to \<^verbatim>\<open>next\<close>. \<open>versionArg\<close> is the
      string the script holds, \<^verbatim>\<open>args._[0]?.toString()\<close>, of a run without
      \<^verbatim>\<open>--help\<close> and \<^verbatim>\<open>--version\<close>, empty when there is no positional argument; \<open>configVersion\<close> and \<open>configName\<close> are the fields \<^verbatim>\<open>version\<close>
      and \<^verbatim>\<open>name\<close> of \<^verbatim>\<open>deno.json\<close> as \<^verbatim>\<open>getProjectMeta\<close> reads them, empty when the
      field is missing; \<^verbatim>\<open>parse\<close> is \<^verbatim>\<open>semver.parse\<close>, \<^verbatim>\<open>None\<close> where it throws. What
      \<^verbatim>\<open>getProjectMeta\<close> throws is caught at the end of the script and handed to
      \<^verbatim>\<open>exitError\<close>\<close>
  "release_next parse configVersion configName versionArg =
     (if versionArg = [] then Inl (ExitError ''Missing version argument.'')
      else if configVersion = [] then Inl (ExitError ''No version found in deno.json'')
      else if configName = [] then Inl (ExitError ''No name found in deno.json'')
      else case parse configVersion of
        None \<Rightarrow> Inl (ParseError configVersion)
      | Some current \<Rightarrow>
          if versionArg \<in> set [''major'', ''minor'', ''patch'']
          then (case parse configVersion of
                  None \<Rightarrow> Inl (ParseError configVersion)
                | Some next \<Rightarrow> Inr (bump versionArg next))
          else (case parse versionArg of
                  None \<Rightarrow> Inl (ExitError (''Invalid version: '' @ versionArg))
                | Some next \<Rightarrow> Inr next))"

definition script_next ::
  "(string \<Rightarrow> SemVer option) \<Rightarrow> string list \<Rightarrow> string \<Rightarrow> failure + SemVer" where
  \<comment> \<open>the earlier release script (no options, no look at the name), from the check of
      \<^verbatim>\<open>Deno.args\<close> to \<^verbatim>\<open>next\<close>; \<open>currentVersion\<close> is the field \<^verbatim>\<open>version\<close> of
      \<^verbatim>\<open>deno.json\<close>, empty when the field is missing\<close>
  "script_next parse args currentVersion =
     (if args = [] then Inl (ExitError ''Missing version argument.'')
      else if 1 < length args
        then Inl (ExitError ''Too many arguments. Expected only one version argument.'')
      else if currentVersion = [] then Inl (ExitError ''No version found in deno.json'')
      else case parse currentVersion of
        None \<Rightarrow> Inl (ParseError currentVersion)
      | Some current \<Rightarrow>
          let versionArg = hd args in
          if versionArg = ''major'' then
            (case parse currentVersion of
               None \<Rightarrow> Inl (ParseError currentVersion)
             | Some next \<Rightarrow>
                 Inr (next\<lparr>major := js_inc (major next), minor := 0, patch := 0,
                        prerelease := []\<rparr>))
          else if versionArg = ''minor'' then
            (case parse currentVersion of
               None \<Rightarrow> Inl (ParseError currentVersion)
             | Some next \<Rightarrow>
                 Inr (next\<lparr>minor := js_inc (minor next), patch := 0, prerelease := []\<rparr>))
          else if versionArg = ''patch'' then
            (case parse currentVersion of
               None \<Rightarrow> Inl (ParseError currentVersion)
             | Some next \<Rightarrow> Inr (next\<lparr>patch := js_inc (patch next), prerelease := []\<rparr>))
          else (case parse versionArg of
                  None \<Rightarrow> Inl (ExitError (''Invalid version: '' @ versionArg))
                | Some next \<Rightarrow> Inr next))"

subsection \<open>The semantic-version library\<close>

text \<open>
  Modelled from the spec: \<^verbatim>\<open>semver.parse\<close> of the library \<^verbatim>\<open>@std/semver\<close>, which
  is not part of the repository. The grammar is \<^verbatim>\<open>MAJOR.MINOR.PATCH\<close> with an optional
  \<^verbatim>\<open>-prerelease\<close> and an optional \<^verbatim>\<open>+build\<close>, numeric components of digits only.
  The grammar puts no bound on the numbers; the library is known to refuse those beyond
  \<^verbatim>\<open>Number.MAX_SAFE_INTEGER\<close>, which is why a property that depends on the increment
  asks for safe integers.
\<close>

fun split_on :: "char \<Rightarrow> string \<Rightarrow> string list" where
  "split_on d [] = [[]]"
| "split_on d (c # cs) =
     (if c = d then [] # split_on d cs
      else (case split_on d cs of [] \<Rightarrow> [[c]] | l # ls \<Rightarrow> (c # l) # ls))"

definition is_ident_char :: "char \<Rightarrow> bool" where
  "is_ident_char c = (let n = (of_char c :: nat) in
     (48 \<le> n \<and> n \<le> 57) \<or> (65 \<le> n \<and> n \<le> 90) \<or> (97 \<le> n \<and> n \<le> 122) \<or> n = 45)"

definition numeric_id :: "string \<Rightarrow> bool" where
  "numeric_id s = (s \<noteq> [] \<and> list_all is_digit s \<and> (s = ''0'' \<or> hd s \<noteq> CHR ''0''))"

definition ident :: "string \<Rightarrow> bool" where
  "ident s = (s \<noteq> [] \<and> list_all is_ident_char s)"

definition prerelease_id :: "string \<Rightarrow> bool" where
  "prerelease_id s = (ident s \<and> (if list_all is_digit s then numeric_id s else True))"

definition number_of :: "string \<Rightarrow> nat" where
  "number_of s = foldl (\<lambda>a c. 10 * a + (of_char c - 48)) 0 s"

definition semver_parse :: "string \<Rightarrow> SemVer option" where
  "semver_parse s =
     (let main = takeWhile (\<lambda>c. c \<noteq> CHR ''+'') s;
          plus = dropWhile (\<lambda>c. c \<noteq> CHR ''+'') s;
          core = takeWhile (\<lambda>c. c \<noteq> CHR ''-'') main;
          dash = dropWhile (\<lambda>c. c \<noteq> CHR ''-'') main;
          pre = (if dash = [] then [] else split_on (CHR ''.'') (tl dash));
          bld = (if plus = [] then [] else split_on (CHR ''.'') (tl plus))
      in case split_on (CHR ''.'') core of
           [a, b, c] \<Rightarrow>
             if list_all numeric_id [a, b, c]
                \<and> list_all prerelease_id pre \<and> list_all ident bld
             then Some \<lparr>major = number_of a, minor = number_of b, patch = number_of c,
                        prerelease = pre, build = bld\<rparr>
             else None
         | _ \<Rightarrow> None)"

text \<open>
  Modelled from the spec: \<^verbatim>\<open>semver.format\<close> of the same library, which renders the
  canonical form \<^verbatim>\<open>MAJOR.MINOR.PATCH[-prerelease][+build]\<close>.
\<close>

fun show_nat :: "nat \<Rightarrow> string" where
  "show_nat n =
     (if n < 10 then [char_of (48 + n)] else show_nat (n div 10) @ [char_of (48 + n mod 10)])"

declare show_nat.simps [simp del]

definition semver_format :: "SemVer \<Rightarrow> string" where
  "semver_format v =
     show_nat (major v) @ ''.'' @ show_nat (minor v) @ ''.'' @ show_nat (patch v)
     @ (if prerelease v = [] then [] else ''-'' @ join_with ''.'' (prerelease v))
     @ (if build v = [] then [] else ''+'' @ join_with ''.'' (build v))"

section \<open>The changelog scripts\<close>

subsection \<open>Lines and searches\<close>

definition push :: "char \<Rightarrow> string list \<Rightarrow> string list" where
  "push c ls = (case ls of [] \<Rightarrow> [[c]] | l # ls' \<Rightarrow> (c # l) # ls')"

fun split_lines :: "string \<Rightarrow> string list" where
  \<comment> \<open>\<^verbatim>\<open>split(/\r?\n/)\<close>: a break is LF, or CR immediately followed by LF\<close>
  "split_lines [] = [[]]"
| "split_lines [c] = (if c = LF then [[], []] else [[c]])"
| "split_lines (c # d # cs) =
     (if c = LF then [] # split_lines (d # cs)
      else if c = CR \<and> d = LF then [] # split_lines cs
      else push c (split_lines (d # cs)))"

fun find_first :: "('a \<Rightarrow> bool) \<Rightarrow> 'a list \<Rightarrow> nat option" where
  \<comment> \<open>the index a \<^verbatim>\<open>for\<close> loop with \<^verbatim>\<open>break\<close>, or \<^verbatim>\<open>findIndex\<close>, stops at\<close>
  "find_first P [] = None"
| "find_first P (x # xs) = (if P x then Some 0 else map_option Suc (find_first P xs))"

fun first_some :: "('a \<Rightarrow> 'b option) \<Rightarrow> 'a list \<Rightarrow> 'b option" where
  \<comment> \<open>backtracking: the first alternative, in the order tried, that succeeds\<close>
  "first_some f [] = None"
| "first_some f (x # xs) = (case f x of None \<Rightarrow> first_some f xs | Some y \<Rightarrow> Some y)"

definition run :: "(char \<Rightarrow> bool) \<Rightarrow> string \<Rightarrow> nat" where
  "run P s = length (takeWhile P s)"

definition greedy :: "(char \<Rightarrow> bool) \<Rightarrow> nat \<Rightarrow> nat \<Rightarrow> string \<Rightarrow> nat list" where
  \<comment> \<open>the lengths a greedy quantifier \<^verbatim>\<open>{lo,hi}\<close> over a character class tries at the
      start of \<open>s\<close>, longest first\<close>
  "greedy P lo hi s = rev [lo ..< Suc (min hi (run P s))]"

definition is_hash :: "char \<Rightarrow> bool" where
  "is_hash c = (c = CHR ''#'')"

definition is_lbracket :: "char \<Rightarrow> bool" where
  "is_lbracket c = (c = CHR ''['')"

definition is_rbracket :: "char \<Rightarrow> bool" where
  "is_rbracket c = (c = CHR '']'')"

definition is_v :: "char \<Rightarrow> bool" where
  \<comment> \<open>\<^verbatim>\<open>v\<close> under the \<^verbatim>\<open>i\<close> flag\<close>
  "is_v c = (c = CHR ''v'' \<or> c = CHR ''V'')"

definition no_terminator :: "string \<Rightarrow> bool" where
  \<comment> \<open>\<^verbatim>\<open>(.*)$\<close> matches the rest of the line\<close>
  "no_terminator s = list_all (\<lambda>c. \<not> is_line_terminator c) s"

definition trim :: "string \<Rightarrow> string" where
  "trim s = rev (dropWhile is_space (rev (dropWhile is_space s)))"

definition strip_v :: "string \<Rightarrow> string" where
  \<comment> \<open>\<^verbatim>\<open>.replace(/^v/, "")\<close>\<close>
  "strip_v s = (case s of [] \<Rightarrow> [] | c # cs \<Rightarrow> if c = CHR ''v'' then cs else s)"

subsection \<open>get-changelog.ts\<close>

definition hdrRx_test :: "string \<Rightarrow> string \<Rightarrow> bool" where
  \<comment> \<open>\<^verbatim>\<open>^#{1,6}\s*\[?v?VERSION\]?(?:\s+-\s+\d{4}-\d{2}-\d{2})?\<close> with flag \<^verbatim>\<open>i\<close>, the
      version escaped to a literal; the closing bracket and the date group may match
      nothing, so they never decide the test\<close>
  "hdrRx_test version l =
     list_ex (\<lambda>h. let r1 = drop h l in
       list_ex (\<lambda>s. let r2 = drop s r1 in
         list_ex (\<lambda>b. let r3 = drop b r2 in
           list_ex (\<lambda>v. ci_prefix version (drop v r3))
             (greedy is_v 0 1 r3))
           (greedy is_lbracket 0 1 r2))
         (greedy is_space 0 (length r1) r1))
       (greedy is_hash 1 6 l)"

definition unreleasedRx_test :: "string \<Rightarrow> bool" where
  \<comment> \<open>\<^verbatim>\<open>/^#{1,6}\s*\[?Unreleased\]?/i\<close>\<close>
  "unreleasedRx_test l =
     list_ex (\<lambda>h. let r1 = drop h l in
       list_ex (\<lambda>s. let r2 = drop s r1 in
         list_ex (\<lambda>b. ci_prefix ''Unreleased'' (drop b r2))
           (greedy is_lbracket 0 1 r2))
         (greedy is_space 0 (length r1) r1))
       (greedy is_hash 1 6 l)"

definition start_level :: "string \<Rightarrow> nat" where
  \<comment> \<open>\<^verbatim>\<open>startLine.match(/^(#{1,6})/)?.[1].length ?? 2\<close>\<close>
  "start_level l = (case greedy is_hash 1 6 l of [] \<Rightarrow> 2 | h # _ \<Rightarrow> h)"

definition heading_level :: "string \<Rightarrow> nat option" where
  \<comment> \<open>\<^verbatim>\<open>lines[i].match(/^(#{1,6})\s+\S/)\<close>, the length of group 1\<close>
  "heading_level l =
     first_some (\<lambda>h. let r1 = drop h l in
       first_some (\<lambda>s. let r2 = drop s r1 in
          if r2 \<noteq> [] \<and> \<not> is_space (hd r2) then Some h else None)
         (greedy is_space 1 (length r1) r1))
       (greedy is_hash 1 6 l)"

definition stops :: "nat \<Rightarrow> string \<Rightarrow> bool" where
  \<comment> \<open>the test of the end scan: a heading of the same or a higher level\<close>
  "stops startLevel l =
     (case heading_level l of None \<Rightarrow> False | Some level \<Rightarrow> level \<le> startLevel)"

definition section_end :: "string list \<Rightarrow> nat \<Rightarrow> nat" where
  "section_end lines start =
     (case find_first (stops (start_level (lines ! start))) (drop (Suc start) lines) of
        None \<Rightarrow> length lines
      | Some j \<Rightarrow> Suc start + j)"

definition link_ref_at :: "string \<Rightarrow> bool" where
  \<comment> \<open>\<^verbatim>\<open>/\n\n\[[\d.]+\]:\s+https?:\/\/.+$/s\<close> matches at the start of \<open>r\<close> (and then up to
      the end of the text, the dot matching line breaks too)\<close>
  "link_ref_at r =
     (case r of
        a # b # c # r1 \<Rightarrow>
          a = LF \<and> b = LF \<and> c = CHR ''['' \<and>
          (let n = run (\<lambda>c. is_digit c \<or> c = CHR ''.'') r1; r2 = drop n r1 in
             1 \<le> n \<and> take 2 r2 = '']:'' \<and>
             (let r3 = drop 2 r2; k = run is_space r3; r4 = drop k r3 in
                1 \<le> k \<and> ((take 7 r4 = ''http://'' \<and> 7 < length r4)
                         \<or> (take 8 r4 = ''https://'' \<and> 8 < length r4))))
      | _ \<Rightarrow> False)"

fun strip_link_refs :: "string \<Rightarrow> string" where
  \<comment> \<open>\<^verbatim>\<open>content.replace(..., "")\<close>: the text before the leftmost match\<close>
  "strip_link_refs [] = []"
| "strip_link_refs (c # cs) = (if link_ref_at (c # cs) then [] else c # strip_link_refs cs)"

definition not_found :: "string \<Rightarrow> string" where
  "not_found version =
     ''No changelog entry found for version '' @ version @ '' and no '' @ [CHR 0x27]
     @ ''Unreleased'' @ [CHR 0x27] @ '' section present.''"

definition find_start :: "string \<Rightarrow> string list \<Rightarrow> nat option" where
  "find_start version lines =
     (case find_first (hdrRx_test version) lines of
        None \<Rightarrow> find_first unreleasedRx_test lines
      | Some i \<Rightarrow> Some i)"

definition section_text :: "string list \<Rightarrow> nat \<Rightarrow> string" where
  "section_text lines start =
     (let endIndex = section_end lines start;
          content = trim (join_with [LF] (take (endIndex - start) (drop start lines)))
      in strip_link_refs content)"

definition get_changelog :: "string \<Rightarrow> string \<Rightarrow> failure + string" where
  \<comment> \<open>the script on its argument and the text read from \<^verbatim>\<open>CHANGELOG.md\<close>; the result
      is what it prints\<close>
  "get_changelog versionArg md =
     (if versionArg = [] then Inl (Usage ''Usage: deno run -A tools/get-changelog.ts <version>'')
      else
        let version = strip_v versionArg;
            lines = split_lines md
        in case find_start version lines of
             None \<Rightarrow> Inr (not_found version)
           | Some start \<Rightarrow> Inr (section_text lines start))"

subsection \<open>update-changelog.ts\<close>

definition versionRx_exec :: "string \<Rightarrow> string \<Rightarrow> (string \<times> string) option" where
  \<comment> \<open>\<^verbatim>\<open>^(#{1,6}\s*)(\[?)(v?VERSION)(\]?)(.*)$\<close> with flag \<^verbatim>\<open>i\<close>: groups 1 and 3 of the
      match the backtracking finds first; after the version the rest of the line matches
      exactly when it holds no line terminator\<close>
  "versionRx_exec version l =
     first_some (\<lambda>h. let r1 = drop h l in
       first_some (\<lambda>s. let r2 = drop s r1 in
         first_some (\<lambda>b. let r3 = drop b r2 in
           first_some (\<lambda>v. let r4 = drop v r3 in
              if ci_prefix version r4 \<and> no_terminator (drop (length version) r4)
              then Some (take (h + s) l, take (v + length version) r3) else None)
             (greedy is_v 0 1 r3))
           (greedy is_lbracket 0 1 r2))
         (greedy is_space 0 (length r1) r1))
       (greedy is_hash 1 6 l)"

definition unreleasedRx_exec :: "string \<Rightarrow> string list option" where
  \<comment> \<open>\<^verbatim>\<open>/^(#{1,6}\s*)(\[?)(Unreleased)(\]?)(.*)$/i\<close>: the five groups\<close>
  "unreleasedRx_exec l =
     first_some (\<lambda>h. let r1 = drop h l in
       first_some (\<lambda>s. let r2 = drop s r1 in
         first_some (\<lambda>b. let r3 = drop b r2; r4 = drop 10 r3 in
            if ci_prefix ''Unreleased'' r3 then
              first_some (\<lambda>e. let r5 = drop e r4 in
                 if no_terminator r5
                 then Some [take (h + s) l, take b r2, take 10 r3, take e r4, r5] else None)
                (greedy is_rbracket 0 1 r4)
            else None)
           (greedy is_lbracket 0 1 r2))
         (greedy is_space 0 (length r1) r1))
       (greedy is_hash 1 6 l)"

definition digit_val :: "char \<Rightarrow> nat" where
  "digit_val c = of_char c - 48"

definition capture :: "string list \<Rightarrow> nat \<Rightarrow> string \<Rightarrow> string" where
  \<comment> \<open>the text a reference stands for: the group, or the reference itself when there
      is no such group\<close>
  "capture caps n ref = (if 1 \<le> n \<and> n \<le> length caps then caps ! (n - 1) else ref)"

fun expand :: "string list \<Rightarrow> string \<Rightarrow> string \<Rightarrow> string" where
  \<comment> \<open>the replacement patterns of \<^verbatim>\<open>String.prototype.replace\<close> with a string
      replacement, for a match that covers the whole subject (nothing before, nothing
      after it) and a regular expression without named groups\<close>
  "expand caps matched [] = []"
| "expand caps matched [c] = [c]"
| "expand caps matched (c # d # t) =
     (if c \<noteq> CHR ''$'' then c # expand caps matched (d # t)
      else if d = CHR ''$'' then CHR ''$'' # expand caps matched t
      else if d = CHR ''&'' then matched @ expand caps matched t
      else if d = CHR 0x60 \<or> d = CHR 0x27 then expand caps matched t
      else if is_digit d then
        (if t \<noteq> [] \<and> is_digit (hd t) \<and> 10 * digit_val d + digit_val (hd t) \<le> length caps
         then capture caps (10 * digit_val d + digit_val (hd t)) [c, d, hd t]
              @ expand caps matched (tl t)
         else capture caps (digit_val d) [c, d] @ expand caps matched t)
      else c # expand caps matched (d # t))"

definition rewrite_version :: "string \<Rightarrow> string \<Rightarrow> string \<Rightarrow> string" where
  \<comment> \<open>\<^verbatim>\<open>line.replace(versionRx, (_, prefix, _lb, ver, _rb) => ...)\<close>\<close>
  "rewrite_version version today line =
     (case versionRx_exec version line of
        None \<Rightarrow> line
      | Some (prefix, ver) \<Rightarrow> prefix @ ''['' @ strip_v ver @ ''] - '' @ today)"

definition rewrite_unreleased :: "string \<Rightarrow> string \<Rightarrow> string \<Rightarrow> string" where
  \<comment> \<open>\<^verbatim>\<open>line.replace(unreleasedRx, `$1[${version}] - ${today}`)\<close>\<close>
  "rewrite_unreleased version today line =
     (case unreleasedRx_exec line of
        None \<Rightarrow> line
      | Some caps \<Rightarrow> expand caps line (''$1['' @ version @ ''] - '' @ today))"

definition is_title :: "string \<Rightarrow> bool" where
  \<comment> \<open>\<^verbatim>\<open>/^#\s+/\<close>\<close>
  "is_title l = (case l of c # d # _ \<Rightarrow> c = CHR ''#'' \<and> is_space d | _ \<Rightarrow> False)"

definition insert_index :: "string list \<Rightarrow> nat" where
  "insert_index lines =
     (case find_first is_title lines of
        None \<Rightarrow> 0
      | Some i \<Rightarrow> Suc i + length (takeWhile (\<lambda>l. trim l = []) (drop (Suc i) lines)))"

definition new_section :: "string \<Rightarrow> string \<Rightarrow> string list" where
  "new_section version today =
     [[], ''## ['' @ version @ ''] - '' @ today, [], ''### Added'', [], ''- Initial release'', []]"

definition update_lines :: "string \<Rightarrow> string \<Rightarrow> string list \<Rightarrow> string list" where
  "update_lines version today lines =
     (case find_first (\<lambda>l. versionRx_exec version l \<noteq> None) lines of
        Some headerIndex \<Rightarrow>
          lines[headerIndex := rewrite_version version today (lines ! headerIndex)]
      | None \<Rightarrow>
          (case find_first (\<lambda>l. unreleasedRx_exec l \<noteq> None) lines of
             Some headerIndex \<Rightarrow>
               lines[headerIndex := rewrite_unreleased version today (lines ! headerIndex)]
           | None \<Rightarrow>
               (let insertIndex = insert_index lines
                in take insertIndex lines @ new_section version today
                   @ drop insertIndex lines)))"

definition update_changelog :: "string \<Rightarrow> string \<Rightarrow> string \<Rightarrow> failure + string" where
  \<comment> \<open>the script on its argument, the date of the day and the text read from
      \<^verbatim>\<open>CHANGELOG.md\<close>; the result is the text written back\<close>
  "update_changelog versionArg today content =
     (if versionArg = [] then
        Inl (Usage ''Usage: deno run -A tools/update-changelog.ts <version>'')
      else Inr (join_with [LF]
                  (update_lines (strip_v versionArg) today (split_lines content))))"

subsection \<open>Lines that a join and a split give back\<close>

definition stable_line :: "string \<Rightarrow> bool" where
  \<comment> \<open>no line feed inside, no carriage return at the end\<close>
  "stable_line l = (LF \<notin> set l \<and> (l = [] \<or> last l \<noteq> CR))"

subsection \<open>Changelogs used in the examples\<close>





definition changelog_unreleased :: string where
  "changelog_unreleased = join_with [LF]
     [''# Changelog'', [], ''## [Unreleased]'', [], ''### Added'', ''- thing'', [],
      ''## [1.0.0] - 2024-01-01'', [], ''- old'', []]"

definition changelog_candidate :: string where
  "changelog_candidate = join_with [LF]
     [''## [1.0.0-rc.1]'', ''- candidate'', ''## [1.0.0]'', ''- release'']"

definition changelog_released :: string where
  "changelog_released = join_with [LF]
     [''# Changelog'', [], ''## [1.0.0] - 2024-01-01'', [], ''### Added'', ''- Initial release'', []]"

definition changelog_level_one :: string where
  "changelog_level_one = join_with [LF] [''# 1.0.0 - 2024-01-01'', [], ''- old'', []]"

definition changelog_v_heading :: string where
  "changelog_v_heading = join_with [LF]
     [''# Changelog'', [], ''## [v1.0.0]'', [], ''- Release notes'', []]"

definition changelog_v2 :: string where
  "changelog_v2 = join_with [LF]
     [''# Changelog'', [], ''## v2.0.0'', [], ''### Added'', ''- New major release'', []]"

section \<open>Properties of the version bump\<close>

lemma js_inc_safe: "safe_integer n \<Longrightarrow> js_inc n = n + 1"
  by (simp add: safe_integer_def js_inc_def)

lemma js_inc_beyond: "js_inc 9007199254740992 = 9007199254740992"
  by (simp add: js_inc_def)

lemma bump_major:
  "bump ''major'' v = v\<lparr>major := js_inc (major v), minor := 0, patch := 0, prerelease := []\<rparr>"
  by (simp add: bump_def)

lemma bump_minor:
  "bump ''minor'' v = v\<lparr>minor := js_inc (minor v), patch := 0, prerelease := []\<rparr>"
  by (simp add: bump_def)

lemma bump_patch:
  "bump ''patch'' v = v\<lparr>patch := js_inc (patch v), prerelease := []\<rparr>"
  by (simp add: bump_def)

lemma parsed_not_empty: "parse [] = None \<Longrightarrow> parse s = Some v \<Longrightarrow> s \<noteq> []"
  by auto

lemma parse_beta: "semver_parse ''1.0.0-beta.1'' =
    Some \<lparr>major = 1, minor = 0, patch = 0, prerelease = [''beta'', ''1''], build = []\<rparr>"
  by code_simp

lemma parse_empty: "semver_parse [] = None"
  by code_simp

lemma release_next_no_name:
  "versionArg \<noteq> [] \<Longrightarrow> configVersion \<noteq> [] \<Longrightarrow>
   release_next parse configVersion [] versionArg = Inl (ExitError ''No name found in deno.json'')"
  by (simp add: release_next_def)

text \<open>
  C1. Whenever \<^verbatim>\<open>deno.json\<close> has a name and a version that parses, each of the keywords
  \<^verbatim>\<open>major\<close>, \<^verbatim>\<open>minor\<close> and \<^verbatim>\<open>patch\<close> yields the parsed version with that component
  incremented by one, the less significant components set to zero and the prerelease
  list empty; both release scripts agree. The parser is any function that rejects the
  empty string and the numbers it has delivered are safe integers, the only ones
  \<^verbatim>\<open>semver.parse\<close> returns (beyond them \<^verbatim>\<open>++\<close> no longer adds one).
\<close>

theorem C1_keyword_bump:
  assumes "parse [] = None" and "parse current = Some v" and "configName \<noteq> []"
    and "safe_integer (major v)" and "safe_integer (minor v)" and "safe_integer (patch v)"
  shows "release_next parse current configName ''major''
           = Inr (v\<lparr>major := major v + 1, minor := 0, patch := 0, prerelease := []\<rparr>)
       \<and> release_next parse current configName ''minor''
           = Inr (v\<lparr>minor := minor v + 1, patch := 0, prerelease := []\<rparr>)
       \<and> release_next parse current configName ''patch''
           = Inr (v\<lparr>patch := patch v + 1, prerelease := []\<rparr>)
       \<and> script_next parse [''major''] current = release_next parse current configName ''major''
       \<and> script_next parse [''minor''] current = release_next parse current configName ''minor''
       \<and> script_next parse [''patch''] current = release_next parse current configName ''patch''"
proof -
  have ne: "current \<noteq> []"
    using assms(1,2) by (rule parsed_not_empty)
  have inc: "js_inc (major v) = major v + 1" "js_inc (minor v) = minor v + 1"
    "js_inc (patch v) = patch v + 1"
    using assms(4-6) by (simp_all add: js_inc_safe)
  show ?thesis
    using ne assms(2,3) inc
    by (simp add: release_next_def script_next_def bump_major bump_minor bump_patch)
qed

theorem C1_keyword_bump_witness:
  "semver_parse [] = None
   \<and> semver_parse ''1.0.0-beta.1''
       = Some \<lparr>major = 1, minor = 0, patch = 0, prerelease = [''beta'', ''1''], build = []\<rparr>
   \<and> ''@scope/tool'' \<noteq> [] \<and> safe_integer 1 \<and> safe_integer 0
   \<and> release_next semver_parse ''1.0.0-beta.1'' ''@scope/tool'' ''patch''
       = Inr \<lparr>major = 1, minor = 0, patch = 1, prerelease = [], build = []\<rparr>
   \<and> release_next semver_parse ''1.0.0-beta.1'' ''@scope/tool'' ''major''
       = Inr \<lparr>major = 2, minor = 0, patch = 0, prerelease = [], build = []\<rparr>
   \<and> script_next semver_parse [''patch''] ''1.0.0-beta.1''
       = Inr \<lparr>major = 1, minor = 0, patch = 1, prerelease = [], build = []\<rparr>
   \<and> semver_format \<lparr>major = 1, minor = 0, patch = 1, prerelease = [], build = []\<rparr>
       = ''1.0.1''"
proof -
  let ?v = "\<lparr>major = 1, minor = 0, patch = 0, prerelease = [''beta'', ''1''], build = []\<rparr>"
  have fmt: "semver_format \<lparr>major = 1, minor = 0, patch = 1, prerelease = [], build = []\<rparr>
      = ''1.0.1''"
    by code_simp
  have nm: "''@scope/tool'' \<noteq> []"
    by simp
  have safe: "safe_integer 1" "safe_integer 0"
    by (simp_all add: safe_integer_def)
  have s: "safe_integer (major ?v)" "safe_integer (minor ?v)" "safe_integer (patch ?v)"
    using safe by simp_all
  show ?thesis
    using C1_keyword_bump [OF parse_empty parse_beta nm s] parse_empty parse_beta nm safe fmt
    by simp
qed

lemma parse_build: "semver_parse ''1.2.3+build.5'' =
    Some \<lparr>major = 1, minor = 2, patch = 3, prerelease = [], build = [''build'', ''5'']\<rparr>"
  by code_simp

lemma format_build_suffix:
  "build n \<noteq> [] \<Longrightarrow> \<exists>p. semver_format n = p @ ''+'' @ join_with ''.'' (build n)"
  by (simp add: semver_format_def)

lemma bump_build: "build (bump k v) = build v"
  by (simp add: bump_def Let_def)

lemma keyword_next:
  assumes "parse [] = None" and "parse current = Some v" and "configName \<noteq> []"
    and "k = ''major'' \<or> k = ''minor'' \<or> k = ''patch''"
  shows "release_next parse current configName k = Inr (bump k v)"
    and "script_next parse [k] current = Inr (bump k v)"
proof -
  have ne: "current \<noteq> []"
    using assms(1,2) by (rule parsed_not_empty)
  show "release_next parse current configName k = Inr (bump k v)"
    using ne assms(2-4) by (auto simp add: release_next_def)
  show "script_next parse [k] current = Inr (bump k v)"
    using ne assms(2,4)
    by (auto simp add: script_next_def bump_major bump_minor bump_patch)
qed

text \<open>
  C7, as the scripts behave. The keyword bump leaves the build identifiers of the parsed
  current version in place: the next version carries the same build list, so its
  canonical rendering ends in \<^verbatim>\<open>+<build>\<close> whenever the current version has build
  metadata. As for every bump, \<^verbatim>\<open>deno.json\<close> has a name and a version that parses.
\<close>

theorem C7_build_kept:
  assumes "parse [] = None" and "parse current = Some v" and "configName \<noteq> []"
    and "k = ''major'' \<or> k = ''minor'' \<or> k = ''patch''"
  shows "\<exists>n. release_next parse current configName k = Inr n
           \<and> script_next parse [k] current = Inr n
           \<and> build n = build v
           \<and> (build v \<noteq> [] \<longrightarrow> (\<exists>p. semver_format n = p @ ''+'' @ join_with ''.'' (build v)))"
proof -
  have "build (bump k v) \<noteq> [] \<longrightarrow>
      (\<exists>p. semver_format (bump k v) = p @ ''+'' @ join_with ''.'' (build (bump k v)))"
    using format_build_suffix by blast
  then show ?thesis
    using keyword_next [OF assms] by (simp add: bump_build)
qed

theorem C7_build_kept_witness:
  "semver_parse [] = None
   \<and> semver_parse ''1.2.3+build.5''
       = Some \<lparr>major = 1, minor = 2, patch = 3, prerelease = [], build = [''build'', ''5'']\<rparr>
   \<and> ''@scope/tool'' \<noteq> []
   \<and> (\<exists>n. release_next semver_parse ''1.2.3+build.5'' ''@scope/tool'' ''minor'' = Inr n
          \<and> script_next semver_parse [''minor''] ''1.2.3+build.5'' = Inr n
          \<and> build n = [''build'', ''5'']
          \<and> (\<exists>p. semver_format n = p @ ''+build.5''))"
proof -
  have nm: "''@scope/tool'' \<noteq> []"
    by simp
  show ?thesis
    using C7_build_kept [OF parse_empty parse_build nm, of "''minor''"] parse_empty parse_build
    by simp
qed

text \<open>
  C7, as the claim states it, fails: \<^verbatim>\<open>1.2.3+build.5\<close> bumped by \<^verbatim>\<open>patch\<close> is
  rendered \<^verbatim>\<open>1.2.4+build.5\<close>, by both scripts.
\<close>

theorem C7_build_dropped_counterexample:
  "release_next semver_parse ''1.2.3+build.5'' ''@scope/tool'' ''patch''
     = Inr \<lparr>major = 1, minor = 2, patch = 4, prerelease = [], build = [''build'', ''5'']\<rparr>
   \<and> script_next semver_parse [''patch''] ''1.2.3+build.5''
     = Inr \<lparr>major = 1, minor = 2, patch = 4, prerelease = [], build = [''build'', ''5'']\<rparr>
   \<and> semver_format
        \<lparr>major = 1, minor = 2, patch = 4, prerelease = [], build = [''build'', ''5'']\<rparr>
     = ''1.2.4+build.5''"
proof -
  have fmt: "semver_format
      \<lparr>major = 1, minor = 2, patch = 4, prerelease = [], build = [''build'', ''5'']\<rparr>
      = ''1.2.4+build.5''"
    by code_simp
  have inc: "js_inc 3 = 4"
    by (simp add: js_inc_def)
  have a: "release_next semver_parse ''1.2.3+build.5'' ''@scope/tool'' ''patch''
      = Inr \<lparr>major = 1, minor = 2, patch = 4, prerelease = [], build = [''build'', ''5'']\<rparr>"
    by (simp add: release_next_def parse_build bump_patch inc)
  have b: "script_next semver_parse [''patch''] ''1.2.3+build.5''
      = Inr \<lparr>major = 1, minor = 2, patch = 4, prerelease = [], build = [''build'', ''5'']\<rparr>"
    by (simp add: script_next_def parse_build inc)
  show ?thesis
    by (intro conjI) (fact a b fmt)+
qed

lemma parse_100: "semver_parse ''1.0.0'' =
    Some \<lparr>major = 1, minor = 0, patch = 0, prerelease = [], build = []\<rparr>"
  by code_simp

lemma parse_257: "semver_parse ''2.5.7'' =
    Some \<lparr>major = 2, minor = 5, patch = 7, prerelease = [], build = []\<rparr>"
  by code_simp

lemma parse_rc: "semver_parse ''1.0.0-rc.1'' =
    Some \<lparr>major = 1, minor = 0, patch = 0, prerelease = [''rc'', ''1''], build = []\<rparr>"
  by code_simp

lemma parse_bad: "semver_parse ''not-a-version'' = None"
  by code_simp

text \<open>
  C9. A request that is none of the three keywords is parsed: when it parses, the parsed
  version is the next version, whatever the current version is (no comparison is made);
  when it does not, the script exits with an error whose message contains the request as
  the script holds it. Here \<^verbatim>\<open>deno.json\<close> has a name and a version that parses, which
  the scripts check before they look at the request; the parser is any function that
  rejects the empty string.
\<close>

theorem C9_explicit_version:
  assumes "parse [] = None" and "parse current = Some c" and "configName \<noteq> []"
    and "versionArg \<noteq> ''major''" and "versionArg \<noteq> ''minor''" and "versionArg \<noteq> ''patch''"
  shows "(\<forall>v. parse versionArg = Some v \<longrightarrow>
            release_next parse current configName versionArg = Inr v
          \<and> script_next parse [versionArg] current = Inr v)
       \<and> (parse versionArg = None \<longrightarrow>
            (\<exists>msg a b. release_next parse current configName versionArg = Inl (ExitError msg)
                       \<and> msg = a @ versionArg @ b)
          \<and> (versionArg \<noteq> [] \<longrightarrow>
                release_next parse current configName versionArg
                  = Inl (ExitError (''Invalid version: '' @ versionArg)))
          \<and> script_next parse [versionArg] current
              = Inl (ExitError (''Invalid version: '' @ versionArg)))"
proof -
  have ne: "current \<noteq> []"
    using assms(1,2) by (rule parsed_not_empty)
  have ok: "parse versionArg = Some v \<Longrightarrow>
      release_next parse current configName versionArg = Inr v
      \<and> script_next parse [versionArg] current = Inr v" for v
    using ne assms by (auto simp add: release_next_def script_next_def)
  have script_bad: "parse versionArg = None \<Longrightarrow>
      script_next parse [versionArg] current = Inl (ExitError (''Invalid version: '' @ versionArg))"
    using ne assms by (simp add: script_next_def)
  have release_bad: "parse versionArg = None \<Longrightarrow> versionArg \<noteq> [] \<Longrightarrow>
      release_next parse current configName versionArg
        = Inl (ExitError (''Invalid version: '' @ versionArg))"
    using ne assms by (simp add: release_next_def)
  have release_msg: "\<exists>msg a b. release_next parse current configName versionArg
        = Inl (ExitError msg)
      \<and> msg = a @ versionArg @ b" if none: "parse versionArg = None"
  proof (cases "versionArg = []")
    case True
    then have "release_next parse current configName versionArg
        = Inl (ExitError ''Missing version argument.'')"
      by (simp add: release_next_def)
    moreover have "''Missing version argument.'' = [] @ versionArg @ ''Missing version argument.''"
      using True by simp
    ultimately show ?thesis by blast
  next
    case False
    have "''Invalid version: '' @ versionArg = ''Invalid version: '' @ versionArg @ []"
      by simp
    then show ?thesis
      using release_bad [OF none False] by blast
  qed
  show ?thesis
    using ok script_bad release_bad release_msg by blast
qed

theorem C9_explicit_version_witness:
  "semver_parse [] = None \<and> ''@scope/tool'' \<noteq> []
   \<and> release_next semver_parse ''1.0.0'' ''@scope/tool'' ''2.5.7''
       = Inr \<lparr>major = 2, minor = 5, patch = 7, prerelease = [], build = []\<rparr>
   \<and> release_next semver_parse ''2.5.7'' ''@scope/tool'' ''1.0.0-rc.1''
       = Inr \<lparr>major = 1, minor = 0, patch = 0, prerelease = [''rc'', ''1''], build = []\<rparr>
   \<and> script_next semver_parse [''1.0.0-rc.1''] ''2.5.7''
       = Inr \<lparr>major = 1, minor = 0, patch = 0, prerelease = [''rc'', ''1''], build = []\<rparr>
   \<and> semver_parse ''not-a-version'' = None
   \<and> release_next semver_parse ''1.0.0'' ''@scope/tool'' ''not-a-version''
       = Inl (ExitError ''Invalid version: not-a-version'')
   \<and> script_next semver_parse [''not-a-version''] ''1.0.0''
       = Inl (ExitError ''Invalid version: not-a-version'')"
proof -
  have nm: "''@scope/tool'' \<noteq> []"
    by simp
  have a: "''2.5.7'' \<noteq> ''major'' \<and> ''2.5.7'' \<noteq> ''minor'' \<and> ''2.5.7'' \<noteq> ''patch''"
    by simp
  have b: "''1.0.0-rc.1'' \<noteq> ''major'' \<and> ''1.0.0-rc.1'' \<noteq> ''minor''
      \<and> ''1.0.0-rc.1'' \<noteq> ''patch''"
    by simp
  have c: "''not-a-version'' \<noteq> ''major'' \<and> ''not-a-version'' \<noteq> ''minor''
      \<and> ''not-a-version'' \<noteq> ''patch'' \<and> ''not-a-version'' \<noteq> []"
    by simp
  show ?thesis
    using C9_explicit_version [OF parse_empty parse_100 nm, of "''2.5.7''"]
      C9_explicit_version [OF parse_empty parse_257 nm, of "''1.0.0-rc.1''"]
      C9_explicit_version [OF parse_empty parse_100 nm, of "''not-a-version''"]
      a b c parse_empty parse_257 parse_rc parse_bad
    by simp
qed

section \<open>Searches, quantifiers and lines\<close>

lemma find_first_None: "find_first P xs = None \<longleftrightarrow> (\<forall>x\<in>set xs. \<not> P x)"
  by (induction xs) auto

lemma find_first_Some:
  "find_first P xs = Some i \<longleftrightarrow> i < length xs \<and> P (xs ! i) \<and> (\<forall>j<i. \<not> P (xs ! j))"
proof (induction xs arbitrary: i)
  case Nil
  then show ?case by simp
next
  case (Cons x xs)
  show ?case
  proof (cases "P x")
    case True
    then show ?thesis by (cases i) auto
  next
    case False
    show ?thesis
    proof (cases i)
      case 0
      then show ?thesis using False by simp
    next
      case (Suc k)
      have "(\<forall>j<Suc k. \<not> P ((x # xs) ! j)) \<longleftrightarrow> (\<forall>j<k. \<not> P (xs ! j))"
        using False by (auto simp add: less_Suc_eq_0_disj)
      then show ?thesis
        using False Suc Cons.IH [of k] by auto
    qed
  qed
qed

lemma first_some_None: "first_some f xs = None \<longleftrightarrow> (\<forall>x\<in>set xs. f x = None)"
  by (induction xs) (auto split: option.splits)

lemma first_some_SomeD: "first_some f xs = Some y \<Longrightarrow> \<exists>x\<in>set xs. f x = Some y"
  by (induction xs) (auto split: option.splits)

lemma set_greedy: "set (greedy P lo hi s) = {n. lo \<le> n \<and> n \<le> hi \<and> n \<le> run P s}"
  by (auto simp add: greedy_def)

lemma greedy_Cons:
  "lo \<le> min hi (run P s) \<Longrightarrow> \<exists>ns. greedy P lo hi s = min hi (run P s) # ns"
  by (simp add: greedy_def)

lemma run_le_length: "run P s \<le> length s"
  by (simp add: run_def length_takeWhile_le)

lemma take_run: "n \<le> run P s \<Longrightarrow> take n s = take n (takeWhile P s)"
proof -
  assume "n \<le> run P s"
  then have "take n (takeWhile P s @ dropWhile P s) = take n (takeWhile P s)"
    by (simp add: run_def del: takeWhile_dropWhile_id)
  then show ?thesis by simp
qed

lemma run_all: "n \<le> run P s \<Longrightarrow> c \<in> set (take n s) \<Longrightarrow> P c"
  by (metis in_set_takeD set_takeWhileD take_run)

lemma run_stop: "n \<le> run P s \<Longrightarrow> n < length s \<Longrightarrow> \<not> P (s ! n) \<Longrightarrow> run P s = n"
proof -
  assume a: "n \<le> run P s" and b: "n < length s" and c: "\<not> P (s ! n)"
  have "\<not> n < run P s"
  proof
    assume "n < run P s"
    then have "P (takeWhile P s ! n)"
      by (metis nth_mem run_def set_takeWhileD)
    moreover have "takeWhile P s ! n = s ! n"
      using \<open>n < run P s\<close> by (simp add: run_def takeWhile_nth)
    ultimately show False using c by simp
  qed
  then show ?thesis using a by simp
qed

lemma run_hd: "1 \<le> run P s \<Longrightarrow> s \<noteq> [] \<and> P (hd s)"
  by (cases s) (auto simp add: run_def split: if_splits)

lemma run_append:
  "list_all P xs \<Longrightarrow> ys = [] \<or> \<not> P (hd ys) \<Longrightarrow> run P (xs @ ys) = length xs"
  by (induction xs) (auto simp add: run_def, (cases ys; simp)+)








lemma not_found_names: "\<exists>a b. not_found version = a @ version @ b"
  unfolding not_found_def by blast

lemma first_some4_SomeD:
  assumes "first_some (\<lambda>a. first_some (\<lambda>b. first_some (\<lambda>c. first_some (\<lambda>d. f a b c d)
      (D a b c)) (C a b)) (B a)) A = Some y"
  shows "\<exists>a\<in>set A. \<exists>b\<in>set (B a). \<exists>c\<in>set (C a b). \<exists>d\<in>set (D a b c). f a b c d = Some y"
proof -
  from assms obtain a where a: "a \<in> set A"
    and 1: "first_some (\<lambda>b. first_some (\<lambda>c. first_some (\<lambda>d. f a b c d)
      (D a b c)) (C a b)) (B a) = Some y"
    by (blast dest: first_some_SomeD)
  from 1 obtain b where b: "b \<in> set (B a)"
    and 2: "first_some (\<lambda>c. first_some (\<lambda>d. f a b c d) (D a b c)) (C a b) = Some y"
    by (blast dest: first_some_SomeD)
  from 2 obtain c where c: "c \<in> set (C a b)"
    and 3: "first_some (\<lambda>d. f a b c d) (D a b c) = Some y"
    by (blast dest: first_some_SomeD)
  from 3 obtain d where "d \<in> set (D a b c)" and "f a b c d = Some y"
    by (blast dest: first_some_SomeD)
  then show ?thesis using a b c by blast
qed

lemma versionRx_exec_SomeD:
  assumes "versionRx_exec version l = Some (p, ver)"
  shows "\<exists>h s b v. h \<in> set (greedy is_hash 1 6 l)
     \<and> s \<in> set (greedy is_space 0 (length (drop h l)) (drop h l))
     \<and> b \<in> set (greedy is_lbracket 0 1 (drop s (drop h l)))
     \<and> v \<in> set (greedy is_v 0 1 (drop b (drop s (drop h l))))
     \<and> ci_prefix version (drop v (drop b (drop s (drop h l))))
     \<and> no_terminator (drop (length version) (drop v (drop b (drop s (drop h l)))))
     \<and> p = take (h + s) l
     \<and> ver = take (v + length version) (drop b (drop s (drop h l)))"
proof -
  from assms [unfolded versionRx_exec_def Let_def, THEN first_some4_SomeD]
  obtain h s b v where "h \<in> set (greedy is_hash 1 6 l)"
    and "s \<in> set (greedy is_space 0 (length (drop h l)) (drop h l))"
    and "b \<in> set (greedy is_lbracket 0 1 (drop s (drop h l)))"
    and "v \<in> set (greedy is_v 0 1 (drop b (drop s (drop h l))))"
    and "(if ci_prefix version (drop v (drop b (drop s (drop h l))))
            \<and> no_terminator (drop (length version) (drop v (drop b (drop s (drop h l)))))
          then Some (take (h + s) l, take (v + length version) (drop b (drop s (drop h l))))
          else None) = Some (p, ver)"
    by blast
  then show ?thesis
    by (metis option.distinct(1) option.inject prod.inject)
qed

lemma versionRx_imp_hdrRx:
  assumes "versionRx_exec version l \<noteq> None"
  shows "hdrRx_test version l"
proof -
  from assms obtain p ver where "versionRx_exec version l = Some (p, ver)"
    by (cases "versionRx_exec version l") auto
  from versionRx_exec_SomeD [OF this] show ?thesis
    unfolding hdrRx_test_def Let_def list_ex_iff by blast
qed

lemma ci_prefix_append: "ci_prefix p w \<Longrightarrow> ci_prefix p (w @ r)"
  by (induction p w rule: ci_prefix.induct) simp_all

lemma first_some_greedy:
  assumes "lo \<le> min hi (run P s)" and "f (min hi (run P s)) = Some y"
  shows "first_some f (greedy P lo hi s) = Some y"
proof -
  from greedy_Cons [OF assms(1)] obtain ns where "greedy P lo hi s = min hi (run P s) # ns"
    by blast
  then show ?thesis using assms(2) by simp
qed

lemma run_Cons_true: "P c \<Longrightarrow> 1 \<le> run P (c # t)"
  by (simp add: run_def)

lemma run_Cons_false: "\<not> P c \<Longrightarrow> run P (c # t) = 0"
  by (simp add: run_def)

section \<open>Properties of the extraction\<close>

lemma get_changelog_no_argument:
  "get_changelog [] md = Inl (Usage ''Usage: deno run -A tools/get-changelog.ts <version>'')"
  by (simp add: get_changelog_def)

text \<open>
  C2, as the script behaves. With a non-empty version argument the extraction always
  prints a text: the section of the first line the version header pattern accepts;
  when no line is accepted, the section of the first line the Unreleased pattern accepts;
  when neither exists, the not-found message, which contains the version searched for
  (the argument without a leading \<^verbatim>\<open>v\<close>).
\<close>

theorem C2_extraction:
  assumes "versionArg \<noteq> []"
  shows "(\<forall>i. i < length (split_lines md)
            \<and> hdrRx_test (strip_v versionArg) (split_lines md ! i)
            \<and> (\<forall>j<i. \<not> hdrRx_test (strip_v versionArg) (split_lines md ! j))
          \<longrightarrow> get_changelog versionArg md = Inr (section_text (split_lines md) i))
       \<and> (\<forall>i. (\<forall>l\<in>set (split_lines md). \<not> hdrRx_test (strip_v versionArg) l)
            \<and> i < length (split_lines md) \<and> unreleasedRx_test (split_lines md ! i)
            \<and> (\<forall>j<i. \<not> unreleasedRx_test (split_lines md ! j))
          \<longrightarrow> get_changelog versionArg md = Inr (section_text (split_lines md) i))
       \<and> ((\<forall>l\<in>set (split_lines md).
              \<not> hdrRx_test (strip_v versionArg) l \<and> \<not> unreleasedRx_test l)
          \<longrightarrow> get_changelog versionArg md = Inr (not_found (strip_v versionArg)))
       \<and> (\<exists>text. get_changelog versionArg md = Inr text)
       \<and> (\<exists>a b. not_found (strip_v versionArg) = a @ strip_v versionArg @ b)"
proof -
  let ?v = "strip_v versionArg" and ?ls = "split_lines md"
  have first: "get_changelog versionArg md = Inr (section_text ?ls i)"
    if "i < length ?ls" "hdrRx_test ?v (?ls ! i)" "\<forall>j<i. \<not> hdrRx_test ?v (?ls ! j)" for i
  proof -
    have "find_first (hdrRx_test ?v) ?ls = Some i"
      using that by (simp add: find_first_Some)
    then show ?thesis
      using assms by (simp add: get_changelog_def find_start_def Let_def)
  qed
  have second: "get_changelog versionArg md = Inr (section_text ?ls i)"
    if "\<forall>l\<in>set ?ls. \<not> hdrRx_test ?v l" "i < length ?ls" "unreleasedRx_test (?ls ! i)"
      "\<forall>j<i. \<not> unreleasedRx_test (?ls ! j)" for i
  proof -
    have "find_first (hdrRx_test ?v) ?ls = None"
      using that(1) by (simp add: find_first_None)
    moreover have "find_first unreleasedRx_test ?ls = Some i"
      using that(2-4) by (simp add: find_first_Some)
    ultimately show ?thesis
      using assms by (simp add: get_changelog_def find_start_def Let_def)
  qed
  have third: "get_changelog versionArg md = Inr (not_found ?v)"
    if "\<forall>l\<in>set ?ls. \<not> hdrRx_test ?v l \<and> \<not> unreleasedRx_test l"
  proof -
    have "find_first (hdrRx_test ?v) ?ls = None" "find_first unreleasedRx_test ?ls = None"
      using that by (simp_all add: find_first_None)
    then show ?thesis
      using assms by (simp add: get_changelog_def find_start_def Let_def)
  qed
  have total: "\<exists>text. get_changelog versionArg md = Inr text"
    using assms by (simp add: get_changelog_def Let_def split: option.split)
  show ?thesis
    using first second third total not_found_names by blast
qed

lemma strip_v_digits: "strip_v ''9.9.9'' = ''9.9.9''" "strip_v ''1.0.0'' = ''1.0.0''"
  "strip_v ''0.9.0'' = ''0.9.0''"
  by (simp_all add: strip_v_def)

theorem C2_extraction_witness:
  "''9.9.9'' \<noteq> []
   \<and> find_first (hdrRx_test ''9.9.9'') (split_lines changelog_unreleased) = None
   \<and> find_first unreleasedRx_test (split_lines changelog_unreleased) = Some 2
   \<and> get_changelog ''9.9.9'' changelog_unreleased
       = Inr (join_with [LF] [''## [Unreleased]'', [], ''### Added'', ''- thing''])
   \<and> find_first (hdrRx_test ''1.0.0'') (split_lines changelog_unreleased) = Some 7
   \<and> get_changelog ''1.0.0'' changelog_unreleased
       = Inr (join_with [LF] [''## [1.0.0] - 2024-01-01'', [], ''- old''])
   \<and> get_changelog ''9.9.9'' ''# Changelog'' = Inr (not_found ''9.9.9'')"
proof -
  let ?ls = "split_lines changelog_unreleased"
  have ne: "''9.9.9'' \<noteq> []" "''1.0.0'' \<noteq> []"
    by simp_all
  have none: "find_first (hdrRx_test ''9.9.9'') ?ls = None"
    by code_simp
  have unrel: "find_first unreleasedRx_test ?ls = Some 2"
    by code_simp
  have ver: "find_first (hdrRx_test ''1.0.0'') ?ls = Some 7"
    by code_simp
  have text2: "section_text ?ls 2 = join_with [LF] [''## [Unreleased]'', [], ''### Added'', ''- thing'']"
    by code_simp
  have text7: "section_text ?ls 7 = join_with [LF] [''## [1.0.0] - 2024-01-01'', [], ''- old'']"
    by code_simp
  have title: "\<forall>l\<in>set (split_lines ''# Changelog'').
      \<not> hdrRx_test ''9.9.9'' l \<and> \<not> unreleasedRx_test l"
    by code_simp
  have a: "\<forall>l\<in>set ?ls. \<not> hdrRx_test ''9.9.9'' l"
    using none by (simp add: find_first_None)
  have b: "2 < length ?ls \<and> unreleasedRx_test (?ls ! 2) \<and> (\<forall>j<2. \<not> unreleasedRx_test (?ls ! j))"
    using unrel by (simp add: find_first_Some)
  have c: "7 < length ?ls \<and> hdrRx_test ''1.0.0'' (?ls ! 7)
      \<and> (\<forall>j<7. \<not> hdrRx_test ''1.0.0'' (?ls ! j))"
    using ver by (simp add: find_first_Some)
  have "get_changelog ''9.9.9'' changelog_unreleased = Inr (section_text ?ls 2)"
    using C2_extraction [OF ne(1), of changelog_unreleased, unfolded strip_v_digits] a b
    by blast
  moreover have "get_changelog ''1.0.0'' changelog_unreleased = Inr (section_text ?ls 7)"
    using C2_extraction [OF ne(2), of changelog_unreleased, unfolded strip_v_digits] c
    by blast
  moreover have "get_changelog ''9.9.9'' ''# Changelog'' = Inr (not_found ''9.9.9'')"
    using C2_extraction [OF ne(1), of "''# Changelog''", unfolded strip_v_digits] title
    by blast
  ultimately show ?thesis
    using none unrel ver text2 text7 by simp
qed

text \<open>
  C2, as the claim states it, fails for the empty version argument: the script prints
  its usage line and exits with code 1 before it reads the changelog.
\<close>

theorem C2_empty_version_counterexample:
  "get_changelog [] changelog_unreleased
     = Inl (Usage ''Usage: deno run -A tools/get-changelog.ts <version>'')"
  by (simp add: get_changelog_def)
















section \<open>Properties shared by both changelog scripts\<close>

text \<open>
  C8, as the scripts behave. Both scripts remove one leading lower-case \<^verbatim>\<open>v\<close> from
  the version argument, so \<^verbatim>\<open>v1.0.0\<close> behaves as \<^verbatim>\<open>1.0.0\<close> does; an upper-case
  \<^verbatim>\<open>V\<close> stays and is searched for as part of the version.
\<close>

theorem C8_lowercase_v_only:
  assumes "w \<noteq> []" and "hd w \<noteq> CHR ''v''"
  shows "get_changelog (CHR ''v'' # w) md = get_changelog w md
       \<and> update_changelog (CHR ''v'' # w) today content = update_changelog w today content
       \<and> get_changelog (CHR ''V'' # w) md
           = (case find_start (CHR ''V'' # w) (split_lines md) of
                None \<Rightarrow> Inr (not_found (CHR ''V'' # w))
              | Some start \<Rightarrow> Inr (section_text (split_lines md) start))
       \<and> update_changelog (CHR ''V'' # w) today content
           = Inr (join_with [LF] (update_lines (CHR ''V'' # w) today (split_lines content)))"
proof -
  have "strip_v w = w"
    using assms by (cases w) (simp_all add: strip_v_def)
  moreover have "strip_v (CHR ''v'' # w) = w" "strip_v (CHR ''V'' # w) = CHR ''V'' # w"
    by (simp_all add: strip_v_def)
  ultimately show ?thesis
    using assms(1) by (simp add: get_changelog_def update_changelog_def Let_def)
qed

theorem C8_lowercase_v_only_witness:
  "''1.0.0'' \<noteq> [] \<and> hd ''1.0.0'' \<noteq> CHR ''v''
   \<and> get_changelog ''v1.0.0'' ''## [1.0.0]'' = Inr ''## [1.0.0]''
   \<and> get_changelog ''1.0.0'' ''## [1.0.0]'' = Inr ''## [1.0.0]''
   \<and> update_changelog ''v1.0.0'' ''2025-01-01'' ''## [1.0.0]'' = Inr ''## [1.0.0] - 2025-01-01''
   \<and> update_changelog ''1.0.0'' ''2025-01-01'' ''## [1.0.0]'' = Inr ''## [1.0.0] - 2025-01-01''"
proof -
  have a: "''1.0.0'' \<noteq> []" and b: "hd ''1.0.0'' \<noteq> CHR ''v''"
    by simp_all
  have g: "get_changelog ''1.0.0'' ''## [1.0.0]'' = Inr ''## [1.0.0]''"
    by code_simp
  have u: "update_changelog ''1.0.0'' ''2025-01-01'' ''## [1.0.0]'' = Inr ''## [1.0.0] - 2025-01-01''"
    by code_simp
  show ?thesis
    using C8_lowercase_v_only [OF a b, of "''## [1.0.0]''" "''2025-01-01''" "''## [1.0.0]''"] g u
    by simp
qed

text \<open>
  C8, as the claim states it, fails: on the changelog \<^verbatim>\<open>## [1.0.0]\<close> the argument
  \<^verbatim>\<open>V1.0.0\<close> finds nothing (and the update adds a section \<^verbatim>\<open>[V1.0.0]\<close>), while
  \<^verbatim>\<open>1.0.0\<close> finds and rewrites the heading.
\<close>

theorem C8_uppercase_v_counterexample:
  "get_changelog ''V1.0.0'' ''## [1.0.0]'' = Inr (not_found ''V1.0.0'')
   \<and> get_changelog ''1.0.0'' ''## [1.0.0]'' = Inr ''## [1.0.0]''
   \<and> update_changelog ''V1.0.0'' ''2025-01-01'' ''## [1.0.0]''
       = Inr (join_with [LF] [[], ''## [V1.0.0] - 2025-01-01'', [], ''### Added'', [],
                ''- Initial release'', [], ''## [1.0.0]''])
   \<and> update_changelog ''1.0.0'' ''2025-01-01'' ''## [1.0.0]'' = Inr ''## [1.0.0] - 2025-01-01''"
  by code_simp

lemma versionRx_candidate:
  "versionRx_exec ''1.0.0'' ''## [1.0.0-rc.1]'' = Some (''## '', ''1.0.0'')"
  by code_simp

lemma hdrRx_candidate: "hdrRx_test ''1.0.0'' ''## [1.0.0-rc.1]''"
  by code_simp

text \<open>
  C10. In every document whose first line accepted by the version pattern of
  \<^verbatim>\<open>1.0.0\<close> is \<^verbatim>\<open>## [1.0.0-rc.1]\<close>, the extraction for \<^verbatim>\<open>1.0.0\<close> prints the section
  starting at that line, and the update for \<^verbatim>\<open>1.0.0\<close> replaces that line by
  \<^verbatim>\<open>## [1.0.0] - <today>\<close>, whatever follows, an exact \<^verbatim>\<open>## [1.0.0]\<close> included.
\<close>

theorem C10_prerelease_heading_taken:
  assumes "lines = split_lines md" and "i < length lines"
    and "lines ! i = ''## [1.0.0-rc.1]''"
    and "\<forall>j<i. \<not> hdrRx_test ''1.0.0'' (lines ! j)"
  shows "get_changelog ''1.0.0'' md = Inr (section_text lines i)
       \<and> update_changelog ''1.0.0'' today md
           = Inr (join_with [LF] (lines[i := ''## [1.0.0] - '' @ today]))"
proof -
  have "find_first (hdrRx_test ''1.0.0'') lines = Some i"
    using assms(2-4) hdrRx_candidate by (simp add: find_first_Some)
  then have extraction: "get_changelog ''1.0.0'' md = Inr (section_text lines i)"
    using assms(1) by (simp add: get_changelog_def find_start_def strip_v_def Let_def)
  have "\<forall>j<i. versionRx_exec ''1.0.0'' (lines ! j) = None"
    using assms(4) versionRx_imp_hdrRx by blast
  then have "find_first (\<lambda>l. versionRx_exec ''1.0.0'' l \<noteq> None) lines = Some i"
    using assms(2,3) versionRx_candidate by (simp add: find_first_Some)
  then have "update_lines ''1.0.0'' today lines = lines[i := ''## [1.0.0] - '' @ today]"
    using assms(3) versionRx_candidate
    by (simp add: update_lines_def rewrite_version_def strip_v_def)
  then have "update_changelog ''1.0.0'' today md
      = Inr (join_with [LF] (lines[i := ''## [1.0.0] - '' @ today]))"
    using assms(1) by (simp add: update_changelog_def strip_v_def)
  then show ?thesis using extraction by simp
qed

theorem C10_prerelease_heading_taken_witness:
  "0 < length (split_lines changelog_candidate)
   \<and> split_lines changelog_candidate ! 0 = ''## [1.0.0-rc.1]''
   \<and> split_lines changelog_candidate ! 2 = ''## [1.0.0]''
   \<and> get_changelog ''1.0.0'' changelog_candidate
       = Inr (join_with [LF] [''## [1.0.0-rc.1]'', ''- candidate''])
   \<and> update_changelog ''1.0.0'' ''2025-01-01'' changelog_candidate
       = Inr (join_with [LF] [''## [1.0.0] - 2025-01-01'', ''- candidate'', ''## [1.0.0]'',
                ''- release''])"
proof -
  let ?ls = "split_lines changelog_candidate"
  have ls: "?ls = [''## [1.0.0-rc.1]'', ''- candidate'', ''## [1.0.0]'', ''- release'']"
    by code_simp
  have a: "0 < length ?ls" and b: "?ls ! 0 = ''## [1.0.0-rc.1]''"
    and c: "\<forall>j<0. \<not> hdrRx_test ''1.0.0'' (?ls ! j)"
    by (simp_all add: ls)
  have t: "section_text ?ls 0 = join_with [LF] [''## [1.0.0-rc.1]'', ''- candidate'']"
    by code_simp
  show ?thesis
    using C10_prerelease_heading_taken [OF refl a b c, of "''2025-01-01''"] t
    by (simp add: ls)
qed

section \<open>Properties of the update\<close>

lemma canon_hash:
  assumes "canon c = CHR ''#''"
  shows "c = CHR ''#''"
proof (rule ccontr)
  assume "c \<noteq> CHR ''#''"
  then have eq: "char_of ((of_char c :: nat) - 32) = CHR ''#''"
    and range: "97 \<le> (of_char c :: nat)"
    using assms by (auto simp add: canon_def Let_def split: if_splits)
  from eq have "of_char (char_of ((of_char c :: nat) - 32)) = (of_char (CHR ''#'') :: nat)"
    by simp
  then have "((of_char c :: nat) - 32) mod 256 = 35"
    by simp
  moreover have "(of_char c :: nat) - 32 < 256"
    by (rule less_imp_diff_less) (rule nat_of_char_less_256)
  ultimately show False
    using range by simp
qed

lemma not_hash_step:
  assumes "n \<le> run P r" and "\<And>c. P c \<Longrightarrow> \<not> is_hash c"
    and "drop n r \<noteq> [] \<and> \<not> is_hash (hd (drop n r))"
  shows "r \<noteq> [] \<and> \<not> is_hash (hd r)"
proof (cases "n = 0")
  case True
  then show ?thesis using assms(3) by simp
next
  case False
  then have "1 \<le> run P r" using assms(1) by simp
  then show ?thesis using run_hd assms(2) by blast
qed

lemma level_exact:
  assumes "h \<le> run is_hash l" and "s \<le> run is_space (drop h l)"
    and "b \<le> run is_lbracket (drop s (drop h l))"
    and "v \<le> run is_v (drop b (drop s (drop h l)))"
    and "ci_prefix (p # ps) (drop v (drop b (drop s (drop h l))))"
    and "p \<noteq> CHR ''#''"
  shows "run is_hash l = h"
proof -
  let ?r1 = "drop h l" and ?r2 = "drop s (drop h l)" and ?r3 = "drop b (drop s (drop h l))"
  let ?r4 = "drop v ?r3"
  obtain c cs where r4: "?r4 = c # cs" and c: "canon p = canon c"
    using assms(5) by (cases ?r4) auto
  have "c \<noteq> CHR ''#''"
  proof
    assume "c = CHR ''#''"
    then have "canon p = CHR ''#''" using c by (simp add: canon_def)
    then show False using canon_hash assms(6) by blast
  qed
  then have 4: "?r4 \<noteq> [] \<and> \<not> is_hash (hd ?r4)"
    using r4 by (simp add: is_hash_def)
  have 3: "?r3 \<noteq> [] \<and> \<not> is_hash (hd ?r3)"
    using assms(4) _ 4 by (rule not_hash_step) (auto simp add: is_v_def is_hash_def)
  have 2: "?r2 \<noteq> [] \<and> \<not> is_hash (hd ?r2)"
    using assms(3) _ 3 by (rule not_hash_step) (auto simp add: is_lbracket_def is_hash_def)
  have 1: "?r1 \<noteq> [] \<and> \<not> is_hash (hd ?r1)"
    using assms(2) _ 2 by (rule not_hash_step) (auto simp add: is_space_def is_hash_def)
  then have len: "h < length l"
    by simp
  then have "\<not> is_hash (l ! h)"
    using 1 by (simp add: hd_drop_conv_nth)
  then show ?thesis
    using assms(1) len run_stop by blast
qed

lemma take_run_length: "n \<le> run P s \<Longrightarrow> length (take n s) = n"
  using run_le_length [of P s] by simp

lemma take_run_hashes: "h \<le> run is_hash l \<Longrightarrow> take h l = replicate h (CHR ''#'')"
proof -
  assume h: "h \<le> run is_hash l"
  have "\<forall>c\<in>set (take h l). c = CHR ''#''"
    using run_all [OF h] by (simp add: is_hash_def)
  then have "replicate (length (take h l)) (CHR ''#'') = take h l"
    by (rule replicate_length_same)
  then show ?thesis
    using take_run_length [OF h] by simp
qed

lemma take_run_spaces: "s \<le> run is_space r \<Longrightarrow> list_all is_space (take s r)"
  using run_all [of s is_space r] by (simp add: list_all_iff)

lemma ci_prefix_take:
  "ci_prefix p t \<Longrightarrow> length p \<le> length t \<and> ci_prefix p (take (length p) t)"
  by (induction p t rule: ci_prefix.induct) auto

lemma take_v:
  assumes "v \<le> 1" and "v \<le> run is_v r"
  shows "take v r = [] \<or> take v r = ''v'' \<or> take v r = ''V''"
proof (cases "v = 0")
  case True
  then show ?thesis by simp
next
  case False
  then have v: "v = 1" using assms(1) by simp
  then have "r \<noteq> [] \<and> is_v (hd r)"
    using assms(2) run_hd by blast
  then show ?thesis
    using v by (cases r) (auto simp add: is_v_def)
qed

lemma versionRx_exec_shape:
  assumes "versionRx_exec version l = Some (p, ver)"
  shows "(\<exists>h s. 1 \<le> h \<and> h \<le> 6 \<and> h \<le> run is_hash l
            \<and> (version \<noteq> [] \<and> hd version \<noteq> CHR ''#'' \<longrightarrow> h = run is_hash l)
            \<and> p = replicate h (CHR ''#'') @ s
            \<and> list_all is_space s \<and> take (length p) l = p)
       \<and> (\<exists>q w. ver = q @ w \<and> (q = [] \<or> q = ''v'' \<or> q = ''V'')
            \<and> length w = length version \<and> ci_prefix version w)"
proof -
  from versionRx_exec_SomeD [OF assms] obtain h s b v
    where h: "h \<in> set (greedy is_hash 1 6 l)"
      and s: "s \<in> set (greedy is_space 0 (length (drop h l)) (drop h l))"
      and b: "b \<in> set (greedy is_lbracket 0 1 (drop s (drop h l)))"
      and v: "v \<in> set (greedy is_v 0 1 (drop b (drop s (drop h l))))"
      and ci: "ci_prefix version (drop v (drop b (drop s (drop h l))))"
      and p: "p = take (h + s) l"
      and ver: "ver = take (v + length version) (drop b (drop s (drop h l)))"
    by blast
  let ?r3 = "drop b (drop s (drop h l))"
  from h have hb: "1 \<le> h" "h \<le> 6" "h \<le> run is_hash l"
    by (simp_all add: set_greedy)
  from s have sb: "s \<le> run is_space (drop h l)"
    by (simp add: set_greedy)
  from b have bb: "b \<le> run is_lbracket (drop s (drop h l))"
    by (simp add: set_greedy)
  from v have vb: "v \<le> 1" "v \<le> run is_v ?r3"
    by (simp_all add: set_greedy)
  have lvl: "h = run is_hash l" if "version \<noteq> [] \<and> hd version \<noteq> CHR ''#''"
  proof -
    from that obtain c cs where c: "version = c # cs" "c \<noteq> CHR ''#''"
      by (cases version) auto
    show ?thesis
      using level_exact [OF hb(3) sb bb vb(2) ci [unfolded c(1)] c(2)] by simp
  qed
  have "p = take h l @ take s (drop h l)"
    using p by (simp add: take_add)
  then have p1: "p = replicate h (CHR ''#'') @ take s (drop h l)"
    using take_run_hashes [OF hb(3)] by simp
  have p2: "take (length p) l = p"
    using p by (simp add: min_def)
  have first: "\<exists>h s. 1 \<le> h \<and> h \<le> 6 \<and> h \<le> run is_hash l
      \<and> (version \<noteq> [] \<and> hd version \<noteq> CHR ''#'' \<longrightarrow> h = run is_hash l)
      \<and> p = replicate h (CHR ''#'') @ s
      \<and> list_all is_space s \<and> take (length p) l = p"
    using hb lvl p1 p2 take_run_spaces [OF sb] by blast
  have "ver = take v ?r3 @ take (length version) (drop v ?r3)"
    using ver by (simp add: take_add)
  moreover have "length (take (length version) (drop v ?r3)) = length version"
    "ci_prefix version (take (length version) (drop v ?r3))"
    using ci_prefix_take [OF ci] by simp_all
  ultimately have second: "\<exists>q w. ver = q @ w \<and> (q = [] \<or> q = ''v'' \<or> q = ''V'')
      \<and> length w = length version \<and> ci_prefix version w"
    using take_v [OF vb] by blast
  show ?thesis using first second by blast
qed

lemma takeWhile_blank_props:
  "(\<forall>j < length (takeWhile P xs). P (xs ! j))
   \<and> (length (takeWhile P xs) < length xs \<longrightarrow> \<not> P (xs ! length (takeWhile P xs)))"
  by (metis nth_length_takeWhile nth_mem set_takeWhileD takeWhile_nth)

lemma insert_index_no_title:
  "\<forall>l\<in>set lines. \<not> is_title l \<Longrightarrow> insert_index lines = 0"
  by (simp add: insert_index_def find_first_None [THEN iffD2])

lemma insert_index_title:
  assumes "t < length lines" and "is_title (lines ! t)" and "\<forall>j<t. \<not> is_title (lines ! j)"
  shows "t < insert_index lines \<and> insert_index lines \<le> length lines
       \<and> (\<forall>j. t < j \<and> j < insert_index lines \<longrightarrow> trim (lines ! j) = [])
       \<and> (insert_index lines < length lines \<longrightarrow> trim (lines ! insert_index lines) \<noteq> [])"
proof -
  let ?rest = "drop (Suc t) lines"
  let ?n = "length (takeWhile (\<lambda>l. trim l = []) ?rest)"
  have "find_first is_title lines = Some t"
    using assms by (simp add: find_first_Some)
  then have k: "insert_index lines = Suc t + ?n"
    by (simp add: insert_index_def)
  have n: "?n \<le> length ?rest"
    by (rule length_takeWhile_le)
  have blank: "trim (lines ! j) = []" if "t < j" "j < Suc t + ?n" for j
  proof -
    have "j - Suc t < ?n" using that by simp
    then have "trim (?rest ! (j - Suc t)) = []"
      using takeWhile_blank_props [of "\<lambda>l. trim l = []" ?rest] by blast
    moreover have "?rest ! (j - Suc t) = lines ! j"
      using that n by simp
    ultimately show ?thesis by simp
  qed
  have stop: "trim (lines ! (Suc t + ?n)) \<noteq> []" if "Suc t + ?n < length lines"
  proof -
    have "?n < length ?rest" using that by simp
    then have "trim (?rest ! ?n) \<noteq> []"
      using takeWhile_blank_props [of "\<lambda>l. trim l = []" ?rest] by blast
    moreover have "?rest ! ?n = lines ! (Suc t + ?n)"
      using that by simp
    ultimately show ?thesis by simp
  qed
  show ?thesis
    using k n assms(1) blank stop by auto
qed


lemma insert_index_le: "insert_index lines \<le> length lines"
proof (cases "find_first is_title lines")
  case None
  then show ?thesis by (simp add: insert_index_def)
next
  case (Some t)
  then have "t < length lines" by (simp add: find_first_Some)
  moreover have "length (takeWhile (\<lambda>l. trim l = []) (drop (Suc t) lines))
      \<le> length (drop (Suc t) lines)"
    by (rule length_takeWhile_le)
  ultimately show ?thesis
    using Some by (simp add: insert_index_def)
qed

lemma inserted_nth:
  assumes "k \<le> length xs" and "length sec = n"
  shows "(\<forall>j<k. (take k xs @ sec @ drop k xs) ! j = xs ! j)
       \<and> (\<forall>j<n. (take k xs @ sec @ drop k xs) ! (k + j) = sec ! j)
       \<and> (\<forall>j. k \<le> j \<and> j < length xs \<longrightarrow> (take k xs @ sec @ drop k xs) ! (j + n) = xs ! j)"
  using assms by (auto simp add: nth_append min_def)

lemma update_lines_new:
  assumes "\<forall>l\<in>set lines. versionRx_exec version l = None"
    and "\<forall>l\<in>set lines. unreleasedRx_exec l = None"
  shows "update_lines version today lines
     = take (insert_index lines) lines @ new_section version today
       @ drop (insert_index lines) lines"
proof -
  have "find_first (\<lambda>l. versionRx_exec version l \<noteq> None) lines = None"
    "find_first (\<lambda>l. unreleasedRx_exec l \<noteq> None) lines = None"
    using assms by (simp_all add: find_first_None)
  then show ?thesis
    by (simp add: update_lines_def Let_def)
qed

lemma first_some3_SomeD:
  assumes "first_some (\<lambda>a. first_some (\<lambda>b. first_some (\<lambda>c. f a b c) (C a b)) (B a)) A = Some y"
  shows "\<exists>a\<in>set A. \<exists>b\<in>set (B a). \<exists>c\<in>set (C a b). f a b c = Some y"
proof -
  from assms obtain a where a: "a \<in> set A"
    and 1: "first_some (\<lambda>b. first_some (\<lambda>c. f a b c) (C a b)) (B a) = Some y"
    by (blast dest: first_some_SomeD)
  from 1 obtain b where b: "b \<in> set (B a)"
    and 2: "first_some (\<lambda>c. f a b c) (C a b) = Some y"
    by (blast dest: first_some_SomeD)
  from 2 obtain c where "c \<in> set (C a b)" and "f a b c = Some y"
    by (blast dest: first_some_SomeD)
  then show ?thesis using a b by blast
qed

lemma unreleasedRx_exec_SomeD:
  assumes "unreleasedRx_exec l = Some caps"
  shows "\<exists>h s b g1 g2 g3 g4 g5. h \<in> set (greedy is_hash 1 6 l)
     \<and> s \<in> set (greedy is_space 0 (length (drop h l)) (drop h l))
     \<and> b \<in> set (greedy is_lbracket 0 1 (drop s (drop h l)))
     \<and> ci_prefix ''Unreleased'' (drop b (drop s (drop h l)))
     \<and> g1 = take (h + s) l \<and> caps = [g1, g2, g3, g4, g5]"
proof -
  from assms [unfolded unreleasedRx_exec_def Let_def, THEN first_some3_SomeD]
  obtain h s b where h: "h \<in> set (greedy is_hash 1 6 l)"
    and s: "s \<in> set (greedy is_space 0 (length (drop h l)) (drop h l))"
    and b: "b \<in> set (greedy is_lbracket 0 1 (drop s (drop h l)))"
    and c: "(if ci_prefix ''Unreleased'' (drop b (drop s (drop h l))) then
         first_some (\<lambda>e. if no_terminator (drop e (drop 10 (drop b (drop s (drop h l)))))
            then Some [take (h + s) l, take b (drop s (drop h l)),
                       take 10 (drop b (drop s (drop h l))),
                       take e (drop 10 (drop b (drop s (drop h l)))),
                       drop e (drop 10 (drop b (drop s (drop h l))))]
            else None)
          (greedy is_rbracket 0 1 (drop 10 (drop b (drop s (drop h l)))))
        else None) = Some caps"
    by blast
  from c have ci: "ci_prefix ''Unreleased'' (drop b (drop s (drop h l)))"
    by (metis option.distinct(1))
  from c have "first_some (\<lambda>e. if no_terminator (drop e (drop 10 (drop b (drop s (drop h l)))))
            then Some [take (h + s) l, take b (drop s (drop h l)),
                       take 10 (drop b (drop s (drop h l))),
                       take e (drop 10 (drop b (drop s (drop h l)))),
                       drop e (drop 10 (drop b (drop s (drop h l))))]
            else None)
          (greedy is_rbracket 0 1 (drop 10 (drop b (drop s (drop h l))))) = Some caps"
    by (metis option.distinct(1))
  then obtain e where "(if no_terminator (drop e (drop 10 (drop b (drop s (drop h l)))))
            then Some [take (h + s) l, take b (drop s (drop h l)),
                       take 10 (drop b (drop s (drop h l))),
                       take e (drop 10 (drop b (drop s (drop h l)))),
                       drop e (drop 10 (drop b (drop s (drop h l))))]
            else None) = Some caps"
    by (blast dest: first_some_SomeD)
  then have "caps = [take (h + s) l, take b (drop s (drop h l)),
                       take 10 (drop b (drop s (drop h l))),
                       take e (drop 10 (drop b (drop s (drop h l)))),
                       drop e (drop 10 (drop b (drop s (drop h l))))]"
    by (metis option.distinct(1) option.inject)
  then show ?thesis using h s b ci by blast
qed

lemma unreleasedRx_exec_shape:
  assumes "unreleasedRx_exec l = Some caps"
  shows "length caps = 5
       \<and> (\<exists>s. 1 \<le> run is_hash l \<and> run is_hash l \<le> 6
            \<and> hd caps = replicate (run is_hash l) (CHR ''#'') @ s
            \<and> list_all is_space s \<and> take (length (hd caps)) l = hd caps)"
proof -
  from unreleasedRx_exec_SomeD [OF assms] obtain h s b g1 g2 g3 g4 g5
    where h: "h \<in> set (greedy is_hash 1 6 l)"
      and s: "s \<in> set (greedy is_space 0 (length (drop h l)) (drop h l))"
      and b: "b \<in> set (greedy is_lbracket 0 1 (drop s (drop h l)))"
      and ci: "ci_prefix ''Unreleased'' (drop b (drop s (drop h l)))"
      and g1: "g1 = take (h + s) l" and caps: "caps = [g1, g2, g3, g4, g5]"
    by blast
  from h have hb: "1 \<le> h" "h \<le> 6" "h \<le> run is_hash l"
    by (simp_all add: set_greedy)
  from s have sb: "s \<le> run is_space (drop h l)"
    by (simp add: set_greedy)
  from b have bb: "b \<le> run is_lbracket (drop s (drop h l))"
    by (simp add: set_greedy)
  have v0: "0 \<le> run is_v (drop b (drop s (drop h l)))"
    by simp
  have ci0: "ci_prefix (CHR ''U'' # ''nreleased'') (drop 0 (drop b (drop s (drop h l))))"
    using ci by simp
  have lvl: "run is_hash l = h"
    using hb(3) sb bb v0 ci0 by (rule level_exact) simp
  have "g1 = take h l @ take s (drop h l)"
    using g1 by (simp add: take_add)
  then have p1: "g1 = replicate h (CHR ''#'') @ take s (drop h l)"
    using take_run_hashes [OF hb(3)] by simp
  have p2: "take (length g1) l = g1"
    using g1 by (simp add: min_def)
  have "\<exists>s. 1 \<le> run is_hash l \<and> run is_hash l \<le> 6
      \<and> g1 = replicate (run is_hash l) (CHR ''#'') @ s
      \<and> list_all is_space s \<and> take (length g1) l = g1"
    using hb lvl p1 p2 take_run_spaces [OF sb] by blast
  then show ?thesis using caps by simp
qed

lemma expand_plain: "CHR ''$'' \<notin> set t \<Longrightarrow> expand caps m t = t"
  by (induction caps m t rule: expand.induct) auto

lemma expand_template:
  assumes "caps \<noteq> []" and "CHR ''$'' \<notin> set rest"
  shows "expand caps m (''$1['' @ rest) = hd caps @ ''['' @ rest"
proof -
  have "expand caps m (CHR ''['' # rest) = CHR ''['' # rest"
    using assms(2) by (simp add: expand_plain)
  then show ?thesis
    using assms(1) by (cases caps) (simp_all add: is_digit_def digit_val_def capture_def)
qed

text \<open>
  C5, as the script behaves. When no line is accepted by the version pattern and none by
  the Unreleased pattern, the update inserts seven lines: an empty line, the header
  \<^verbatim>\<open>## [<version>] - <today>\<close>, an empty line, \<^verbatim>\<open>### Added\<close>, an empty line,
  \<^verbatim>\<open>- Initial release\<close> and an empty line. They go at the top when no line starts
  with \<^verbatim>\<open>#\<close> and white space; otherwise after the first such line and the blank lines
  that follow it. The lines before the insertion point keep their index, the new header
  is at the insertion point plus one, and every line from the insertion point on moves
  down by seven, so the new header stands above each of them.
\<close>

theorem C5_new_section:
  assumes "versionArg \<noteq> []" and "version = strip_v versionArg"
    and "lines = split_lines content"
    and "\<forall>l\<in>set lines. versionRx_exec version l = None"
    and "\<forall>l\<in>set lines. unreleasedRx_exec l = None"
    and "k = insert_index lines"
    and "out = take k lines
           @ [[], ''## ['' @ version @ ''] - '' @ today, [], ''### Added'', [],
              ''- Initial release'', []]
           @ drop k lines"
  shows "update_changelog versionArg today content = Inr (join_with [LF] out)
       \<and> ((\<forall>l\<in>set lines. \<not> is_title l) \<longrightarrow> k = 0)
       \<and> (\<forall>t. t < length lines \<and> is_title (lines ! t) \<and> (\<forall>j<t. \<not> is_title (lines ! j)) \<longrightarrow>
             t < k \<and> k \<le> length lines \<and> (\<forall>j. t < j \<and> j < k \<longrightarrow> trim (lines ! j) = [])
             \<and> (k < length lines \<longrightarrow> trim (lines ! k) \<noteq> []))
       \<and> out ! (k + 1) = ''## ['' @ version @ ''] - '' @ today
       \<and> (\<forall>j<k. out ! j = lines ! j)
       \<and> (\<forall>j. k \<le> j \<and> j < length lines \<longrightarrow> out ! (j + 7) = lines ! j)"
proof -
  have sec: "new_section version today = [[], ''## ['' @ version @ ''] - '' @ today, [],
      ''### Added'', [], ''- Initial release'', []]"
    by (simp add: new_section_def)
  have out: "out = take k lines @ new_section version today @ drop k lines"
    using assms(7) sec by simp
  have "update_lines version today lines = out"
    using update_lines_new [OF assms(4,5)] assms(6) out by simp
  then have result: "update_changelog versionArg today content = Inr (join_with [LF] out)"
    using assms(1-3) by (simp add: update_changelog_def)
  have no_title: "(\<forall>l\<in>set lines. \<not> is_title l) \<longrightarrow> k = 0"
    unfolding assms(6) by (rule impI) (rule insert_index_no_title)
  have title: "\<forall>t. t < length lines \<and> is_title (lines ! t) \<and> (\<forall>j<t. \<not> is_title (lines ! j)) \<longrightarrow>
      t < k \<and> k \<le> length lines \<and> (\<forall>j. t < j \<and> j < k \<longrightarrow> trim (lines ! j) = [])
      \<and> (k < length lines \<longrightarrow> trim (lines ! k) \<noteq> [])"
    unfolding assms(6)
  proof (intro allI impI)
    fix t
    assume "t < length lines \<and> is_title (lines ! t) \<and> (\<forall>j<t. \<not> is_title (lines ! j))"
    then have "t < length lines" "is_title (lines ! t)" "\<forall>j<t. \<not> is_title (lines ! j)"
      by simp_all
    then show "t < insert_index lines \<and> insert_index lines \<le> length lines
        \<and> (\<forall>j. t < j \<and> j < insert_index lines \<longrightarrow> trim (lines ! j) = [])
        \<and> (insert_index lines < length lines \<longrightarrow> trim (lines ! insert_index lines) \<noteq> [])"
      by (rule insert_index_title)
  qed
  have k: "k \<le> length lines"
    using assms(6) insert_index_le by simp
  have len: "length (new_section version today) = 7"
    by (simp add: new_section_def)
  note nth = inserted_nth [OF k len, folded out]
  from nth have before: "\<forall>j<k. out ! j = lines ! j"
    and at: "\<forall>j<7. out ! (k + j) = new_section version today ! j"
    and after: "\<forall>j. k \<le> j \<and> j < length lines \<longrightarrow> out ! (j + 7) = lines ! j"
    by blast+
  have "out ! (k + 1) = new_section version today ! 1"
    using at [rule_format, of 1] by simp
  then have header: "out ! (k + 1) = ''## ['' @ version @ ''] - '' @ today"
    by (simp add: new_section_def)
  show ?thesis
    by (intro conjI) (fact result no_title title header before after)+
qed

theorem C5_new_section_witness:
  "''1.1.0'' \<noteq> [] \<and> ''1.1.0'' = strip_v ''1.1.0''
   \<and> list_all (\<lambda>l. versionRx_exec ''1.1.0'' l = None) (split_lines changelog_released)
   \<and> list_all (\<lambda>l. unreleasedRx_exec l = None) (split_lines changelog_released)
   \<and> insert_index (split_lines changelog_released) = 2
   \<and> update_changelog ''1.1.0'' ''2025-01-01'' changelog_released
       = Inr (join_with [LF]
           [''# Changelog'', [], [], ''## [1.1.0] - 2025-01-01'', [], ''### Added'', [],
            ''- Initial release'', [], ''## [1.0.0] - 2024-01-01'', [], ''### Added'',
            ''- Initial release'', []])"
proof -
  let ?ls = "split_lines changelog_released"
  have ls: "?ls = [''# Changelog'', [], ''## [1.0.0] - 2024-01-01'', [], ''### Added'',
      ''- Initial release'', []]"
    by code_simp
  have a: "''1.1.0'' \<noteq> []" and b: "''1.1.0'' = strip_v ''1.1.0''"
    by (simp_all add: strip_v_def)
  have c: "\<forall>l\<in>set ?ls. versionRx_exec ''1.1.0'' l = None"
    by code_simp
  have d: "\<forall>l\<in>set ?ls. unreleasedRx_exec l = None"
    by code_simp
  have k: "2 = insert_index ?ls"
    by code_simp
  have "update_changelog ''1.1.0'' ''2025-01-01'' changelog_released
      = Inr (join_with [LF] (take 2 ?ls
          @ [[], ''## ['' @ ''1.1.0'' @ ''] - '' @ ''2025-01-01'', [], ''### Added'', [],
             ''- Initial release'', []]
          @ drop 2 ?ls))"
    using C5_new_section [OF a b refl c d k refl, of "''2025-01-01''"] by (rule conjunct1)
  then have r: "update_changelog ''1.1.0'' ''2025-01-01'' changelog_released
      = Inr (join_with [LF]
           [''# Changelog'', [], [], ''## [1.1.0] - 2025-01-01'', [], ''### Added'', [],
            ''- Initial release'', [], ''## [1.0.0] - 2024-01-01'', [], ''### Added'',
            ''- Initial release'', []])"
    by (simp add: ls)
  have c': "list_all (\<lambda>l. versionRx_exec ''1.1.0'' l = None) ?ls"
    and d': "list_all (\<lambda>l. unreleasedRx_exec l = None) ?ls"
    using c d by (simp_all add: list_all_iff)
  show ?thesis
    by (intro conjI) (fact a b c' d' k [symmetric] r)+
qed

text \<open>
  C5, as the claim states it, fails where an older version header is not below the
  insertion point: in a changelog whose version headings are of level one, the first of
  them is taken for the title, and the new header (index 3) comes after the older one
  (index 0).
\<close>

theorem C5_title_is_version_counterexample:
  "update_changelog ''1.1.0'' ''2025-01-01'' changelog_level_one
     = Inr (join_with [LF]
         [''# 1.0.0 - 2024-01-01'', [], [], ''## [1.1.0] - 2025-01-01'', [], ''### Added'', [],
          ''- Initial release'', [], ''- old'', []])
   \<and> find_first (hdrRx_test ''1.1.0'')
         [''# 1.0.0 - 2024-01-01'', [], [], ''## [1.1.0] - 2025-01-01'', [], ''### Added'', [],
          ''- Initial release'', [], ''- old'', []] = Some 3
   \<and> find_first (hdrRx_test ''1.0.0'')
         [''# 1.0.0 - 2024-01-01'', [], [], ''## [1.1.0] - 2025-01-01'', [], ''### Added'', [],
          ''- Initial release'', [], ''- old'', []] = Some 0"
  by code_simp


lemma run_hash_rewritten:
  assumes "list_all is_space s"
  shows "run is_hash (replicate h (CHR ''#'') @ s @ CHR ''['' # rest) = h"
proof -
  have "list_all is_hash (replicate h (CHR ''#''))"
    by (simp add: list_all_iff is_hash_def)
  moreover have "s @ CHR ''['' # rest = [] \<or> \<not> is_hash (hd (s @ CHR ''['' # rest))"
    using assms by (cases s) (auto simp add: is_hash_def is_space_def)
  ultimately have "run is_hash (replicate h (CHR ''#'') @ (s @ CHR ''['' # rest))
      = length (replicate h (CHR ''#''))"
    by (rule run_append)
  then show ?thesis by simp
qed

lemma update_lines_version:
  assumes "i < length lines" and "versionRx_exec version (lines ! i) = Some (prefix, ver)"
    and "\<forall>j<i. versionRx_exec version (lines ! j) = None"
  shows "update_lines version today lines
     = lines[i := prefix @ ''['' @ strip_v ver @ ''] - '' @ today]"
proof -
  have "find_first (\<lambda>l. versionRx_exec version l \<noteq> None) lines = Some i"
    using assms by (simp add: find_first_Some)
  then show ?thesis
    using assms(2) by (simp add: update_lines_def rewrite_version_def)
qed

lemma update_lines_unreleased:
  assumes "\<forall>l\<in>set lines. versionRx_exec version l = None" and "i < length lines"
    and "unreleasedRx_exec (lines ! i) = Some caps"
    and "\<forall>j<i. unreleasedRx_exec (lines ! j) = None"
    and "CHR ''$'' \<notin> set version" and "CHR ''$'' \<notin> set today"
  shows "update_lines version today lines
     = lines[i := hd caps @ ''['' @ version @ ''] - '' @ today]"
proof -
  have none: "find_first (\<lambda>l. versionRx_exec version l \<noteq> None) lines = None"
    using assms(1) by (simp add: find_first_None)
  have some: "find_first (\<lambda>l. unreleasedRx_exec l \<noteq> None) lines = Some i"
    using assms(2-4) by (simp add: find_first_Some)
  have "caps \<noteq> []"
    using unreleasedRx_exec_shape [OF assms(3)] by auto
  moreover have "CHR ''$'' \<notin> set (version @ ''] - '' @ today)"
    using assms(5,6) by simp
  ultimately have "expand caps (lines ! i) (''$1['' @ version @ ''] - '' @ today)
      = hd caps @ ''['' @ version @ ''] - '' @ today"
    by (rule expand_template)
  then have "rewrite_unreleased version today (lines ! i)
      = hd caps @ ''['' @ version @ ''] - '' @ today"
    using assms(3) by (simp add: rewrite_unreleased_def)
  then show ?thesis
    using none some by (simp add: update_lines_def)
qed

lemma canon_U:
  assumes "canon c = CHR ''U''"
  shows "c = CHR ''U'' \<or> c = CHR ''u''"
proof (rule ccontr)
  assume ne: "\<not> (c = CHR ''U'' \<or> c = CHR ''u'')"
  then have eq: "char_of ((of_char c :: nat) - 32) = CHR ''U''"
    and range: "97 \<le> (of_char c :: nat)"
    using assms by (auto simp add: canon_def Let_def split: if_splits)
  from eq have "of_char (char_of ((of_char c :: nat) - 32)) = (of_char (CHR ''U'') :: nat)"
    by simp
  then have "((of_char c :: nat) - 32) mod 256 = 85"
    by simp
  moreover have "(of_char c :: nat) - 32 < 256"
    by (rule less_imp_diff_less) (rule nat_of_char_less_256)
  ultimately have "(of_char c :: nat) = of_char (CHR ''u'')"
    using range by simp
  then have "c = CHR ''u''"
    by (simp only: of_char_eq_iff)
  then show False using ne by simp
qed

lemma unreleased_word_hd:
  assumes "ci_prefix ''Unreleased'' w"
  shows "w \<noteq> [] \<and> (hd w = CHR ''U'' \<or> hd w = CHR ''u'')"
proof -
  obtain c cs where w: "w = c # cs" and c: "canon (CHR ''U'') = canon c"
    using assms by (cases w) auto
  have "canon (CHR ''U'') = CHR ''U''"
    by (simp add: canon_def)
  then have "canon c = CHR ''U''"
    using c by simp
  then show ?thesis
    using w canon_U by auto
qed

lemma no_terminator_drop: "no_terminator r \<Longrightarrow> no_terminator (drop e r)"
  unfolding no_terminator_def list_all_iff by (meson in_set_dropD)

lemma unreleasedRx_exec_build:
  assumes h: "1 \<le> h" "h \<le> 6" and sp: "list_all is_space sp"
    and b: "b = [] \<or> b = ''[''"
    and w: "ci_prefix ''Unreleased'' w" "length w = 10"
    and rest: "no_terminator rest"
  shows "\<exists>caps. unreleasedRx_exec (replicate h (CHR ''#'') @ sp @ b @ w @ rest) = Some caps
     \<and> hd caps = replicate h (CHR ''#'') @ sp"
proof -
  let ?l = "replicate h (CHR ''#'') @ sp @ b @ w @ rest"
  let ?r1 = "sp @ b @ w @ rest"
  let ?r2 = "b @ w @ rest"
  let ?r3 = "w @ rest"
  obtain c cs where wc: "w = c # cs" "c = CHR ''U'' \<or> c = CHR ''u''"
    using unreleased_word_hd [OF w(1)] by (cases w) auto
  have r2: "?r2 \<noteq> [] \<and> \<not> is_hash (hd ?r2) \<and> \<not> is_space (hd ?r2)"
    using b wc by (auto simp add: is_hash_def is_space_def)
  have "?r1 = [] \<or> \<not> is_hash (hd ?r1)"
    using sp r2 by (cases sp) (auto simp add: is_hash_def is_space_def)
  moreover have "list_all is_hash (replicate h (CHR ''#''))"
    by (simp add: list_all_iff is_hash_def)
  ultimately have "run is_hash (replicate h (CHR ''#'') @ ?r1) = length (replicate h (CHR ''#''))"
    by (intro run_append)
  then have m1: "min 6 (run is_hash ?l) = h"
    using h by simp
  have d1: "drop h ?l = ?r1"
    by simp
  have "run is_space (sp @ ?r2) = length sp"
    using sp r2 by (intro run_append) simp_all
  then have m2: "min (length ?r1) (run is_space ?r1) = length sp"
    by simp
  have d2: "drop (length sp) ?r1 = ?r2"
    by simp
  have m3: "min 1 (run is_lbracket ?r2) = length b"
  proof (cases "b = []")
    case True
    have "run is_lbracket (c # cs @ rest) = 0"
      using wc(2) by (intro run_Cons_false) (auto simp add: is_lbracket_def)
    then show ?thesis using True wc(1) by simp
  next
    case False
    then have bb: "b = ''[''" using b by simp
    have "1 \<le> run is_lbracket (CHR ''['' # w @ rest)"
      by (rule run_Cons_true) (simp add: is_lbracket_def)
    then show ?thesis using bb by simp
  qed
  have d3: "drop (length b) ?r2 = ?r3"
    by simp
  have ci: "ci_prefix ''Unreleased'' ?r3"
    using w(1) by (rule ci_prefix_append)
  have d4: "drop 10 ?r3 = rest"
    using w(2) by simp
  let ?e = "min 1 (run is_rbracket rest)"
  let ?caps = "[take (h + length sp) ?l, take (length b) ?r2, take 10 ?r3, take ?e rest,
      drop ?e rest]"
  have nt: "no_terminator (drop ?e rest)"
    using rest by (rule no_terminator_drop)
  have e: "first_some (\<lambda>e. if no_terminator (drop e rest)
        then Some [take (h + length sp) ?l, take (length b) ?r2, take 10 ?r3, take e rest,
          drop e rest] else None) (greedy is_rbracket 0 1 rest) = Some ?caps"
    by (rule first_some_greedy) (simp_all only: nt if_True le0)
  have bstage: "first_some (\<lambda>b. if ci_prefix ''Unreleased'' (drop b ?r2) then
        first_some (\<lambda>e. if no_terminator (drop e (drop 10 (drop b ?r2)))
          then Some [take (h + length sp) ?l, take b ?r2, take 10 (drop b ?r2),
            take e (drop 10 (drop b ?r2)), drop e (drop 10 (drop b ?r2))] else None)
          (greedy is_rbracket 0 1 (drop 10 (drop b ?r2)))
        else None) (greedy is_lbracket 0 1 ?r2) = Some ?caps"
    by (rule first_some_greedy) (simp_all only: m3 d3 d4 ci e if_True le0)
  have sstage: "first_some (\<lambda>s. first_some (\<lambda>b.
        if ci_prefix ''Unreleased'' (drop b (drop s ?r1)) then
        first_some (\<lambda>e. if no_terminator (drop e (drop 10 (drop b (drop s ?r1))))
          then Some [take (h + s) ?l, take b (drop s ?r1), take 10 (drop b (drop s ?r1)),
            take e (drop 10 (drop b (drop s ?r1))),
            drop e (drop 10 (drop b (drop s ?r1)))] else None)
          (greedy is_rbracket 0 1 (drop 10 (drop b (drop s ?r1))))
        else None) (greedy is_lbracket 0 1 (drop s ?r1)))
      (greedy is_space 0 (length ?r1) ?r1) = Some ?caps"
    by (rule first_some_greedy) (simp_all only: m2 d2 bstage le0)
  have "unreleasedRx_exec ?l = Some ?caps"
    unfolding unreleasedRx_exec_def Let_def
    by (rule first_some_greedy) (simp_all only: m1 d1 sstage h)
  moreover have "hd ?caps = replicate h (CHR ''#'') @ sp"
    by simp
  ultimately show ?thesis by blast
qed

text \<open>
  The number of leading \<^verbatim>\<open>#\<close> is not kept for every request: with an empty version,
  left by the argument \<^verbatim>\<open>v\<close>, a line of seven \<^verbatim>\<open>#\<close> is accepted and rewritten with six
  of them, and a version that begins with \<^verbatim>\<open>#\<close> takes one from the heading.
\<close>

lemma hashes_not_kept:
  "update_changelog ''v'' ''2025-01-01'' ''####### seven'' = Inr ''######[] - 2025-01-01''
   \<and> update_changelog ''#1'' ''2025-01-01'' ''###1'' = Inr ''##[#1] - 2025-01-01''"
  by code_simp

text \<open>
  C4, as the script behaves. When a line is accepted by the version pattern, the first
  such line, and only it, is replaced by the text of group 1 (the leading \<^verbatim>\<open>#\<close>, one to
  six, and the white space after them), an opening bracket, the version as the heading
  writes it, without a leading lower-case \<^verbatim>\<open>v\<close>, and \<^verbatim>\<open>] - <today>\<close>; brackets, date
  and the rest of the old line are gone. The version as written equals the version asked
  for up to letter case, after an optional \<^verbatim>\<open>v\<close> or \<^verbatim>\<open>V\<close>. When no line is accepted by
  the version pattern, the first line accepted by the Unreleased pattern is replaced by
  group 1, an opening bracket, the version asked for and \<^verbatim>\<open>] - <today>\<close>, provided
  neither the version nor the date holds a \<^verbatim>\<open>$\<close>, which the replacement string would
  interpret. In both cases the other lines stay as they are, and the number of leading
  \<^verbatim>\<open>#\<close> is kept (for the version pattern: when the version, stripped of its \<^verbatim>\<open>v\<close>, is
  not empty and does not itself begin with \<^verbatim>\<open>#\<close>). The Unreleased pattern accepts every line made of one to six \<^verbatim>\<open>#\<close>, any white
  space, an optional opening bracket, the word in any letter case, and a rest without a
  line terminator.
\<close>

theorem C4_header_rewrite:
  assumes "versionArg \<noteq> []" and "version = strip_v versionArg"
    and "lines = split_lines content"
  shows "(\<forall>i prefix ver newLine.
            i < length lines \<and> versionRx_exec version (lines ! i) = Some (prefix, ver)
            \<and> (\<forall>j<i. versionRx_exec version (lines ! j) = None)
            \<and> newLine = prefix @ ''['' @ strip_v ver @ ''] - '' @ today \<longrightarrow>
              update_changelog versionArg today content
                = Inr (join_with [LF] (lines[i := newLine]))
            \<and> (\<exists>h s. 1 \<le> h \<and> h \<le> 6 \<and> prefix = replicate h (CHR ''#'') @ s
                  \<and> list_all is_space s \<and> take (length prefix) (lines ! i) = prefix)
            \<and> (\<exists>q w. ver = q @ w \<and> (q = [] \<or> q = ''v'' \<or> q = ''V'')
                  \<and> length w = length version \<and> ci_prefix version w)
            \<and> (version \<noteq> [] \<and> hd version \<noteq> CHR ''#'' \<longrightarrow>
                  run is_hash newLine = run is_hash (lines ! i)))
       \<and> (\<forall>i caps newLine.
            (\<forall>l\<in>set lines. versionRx_exec version l = None) \<and> i < length lines
            \<and> unreleasedRx_exec (lines ! i) = Some caps
            \<and> (\<forall>j<i. unreleasedRx_exec (lines ! j) = None)
            \<and> CHR ''$'' \<notin> set version \<and> CHR ''$'' \<notin> set today
            \<and> newLine = hd caps @ ''['' @ version @ ''] - '' @ today \<longrightarrow>
              update_changelog versionArg today content
                = Inr (join_with [LF] (lines[i := newLine]))
            \<and> (\<exists>h s. 1 \<le> h \<and> h \<le> 6 \<and> hd caps = replicate h (CHR ''#'') @ s
                  \<and> list_all is_space s \<and> take (length (hd caps)) (lines ! i) = hd caps)
            \<and> run is_hash newLine = run is_hash (lines ! i))
       \<and> (\<forall>h sp b w rest.
            1 \<le> h \<and> h \<le> 6 \<and> list_all is_space sp \<and> (b = [] \<or> b = ''['')
            \<and> ci_prefix ''Unreleased'' w \<and> length w = 10 \<and> no_terminator rest \<longrightarrow>
              (\<exists>caps. unreleasedRx_exec (replicate h (CHR ''#'') @ sp @ b @ w @ rest)
                   = Some caps
                 \<and> hd caps = replicate h (CHR ''#'') @ sp))"
proof -
  have upd: "update_changelog versionArg today content
      = Inr (join_with [LF] (update_lines version today lines))"
    using assms by (simp add: update_changelog_def)
  have first: "update_changelog versionArg today content
        = Inr (join_with [LF] (lines[i := newLine]))
      \<and> (\<exists>h s. 1 \<le> h \<and> h \<le> 6 \<and> prefix = replicate h (CHR ''#'') @ s
            \<and> list_all is_space s \<and> take (length prefix) (lines ! i) = prefix)
      \<and> (\<exists>q w. ver = q @ w \<and> (q = [] \<or> q = ''v'' \<or> q = ''V'')
            \<and> length w = length version \<and> ci_prefix version w)
      \<and> (version \<noteq> [] \<and> hd version \<noteq> CHR ''#'' \<longrightarrow>
            run is_hash newLine = run is_hash (lines ! i))"
    if h: "i < length lines" "versionRx_exec version (lines ! i) = Some (prefix, ver)"
      "\<forall>j<i. versionRx_exec version (lines ! j) = None"
      "newLine = prefix @ ''['' @ strip_v ver @ ''] - '' @ today"
    for i prefix ver newLine
  proof -
    have a: "update_changelog versionArg today content
        = Inr (join_with [LF] (lines[i := newLine]))"
      using upd update_lines_version [OF h(1-3)] h(4) by simp
    from versionRx_exec_shape [OF h(2)] obtain n s
      where n: "1 \<le> n" "n \<le> 6"
        and lvl: "version \<noteq> [] \<and> hd version \<noteq> CHR ''#'' \<longrightarrow> n = run is_hash (lines ! i)"
        and p: "prefix = replicate n (CHR ''#'') @ s" "list_all is_space s"
          "take (length prefix) (lines ! i) = prefix"
      and tok: "\<exists>q w. ver = q @ w \<and> (q = [] \<or> q = ''v'' \<or> q = ''V'')
            \<and> length w = length version \<and> ci_prefix version w"
      by blast
    have "newLine = replicate n (CHR ''#'') @ s @ CHR ''['' # (strip_v ver @ ''] - '' @ today)"
      using h(4) p(1) by simp
    then have "run is_hash newLine = n"
      using run_hash_rewritten [OF p(2)] by simp
    then have c: "version \<noteq> [] \<and> hd version \<noteq> CHR ''#'' \<longrightarrow>
        run is_hash newLine = run is_hash (lines ! i)"
      using lvl by simp
    have b: "\<exists>h s. 1 \<le> h \<and> h \<le> 6 \<and> prefix = replicate h (CHR ''#'') @ s
        \<and> list_all is_space s \<and> take (length prefix) (lines ! i) = prefix"
      using n p by blast
    show ?thesis
      by (intro conjI) (fact a b tok c)+
  qed
  have second: "update_changelog versionArg today content
        = Inr (join_with [LF] (lines[i := newLine]))
      \<and> (\<exists>h s. 1 \<le> h \<and> h \<le> 6 \<and> hd caps = replicate h (CHR ''#'') @ s
            \<and> list_all is_space s \<and> take (length (hd caps)) (lines ! i) = hd caps)
      \<and> run is_hash newLine = run is_hash (lines ! i)"
    if h: "\<forall>l\<in>set lines. versionRx_exec version l = None" "i < length lines"
      "unreleasedRx_exec (lines ! i) = Some caps"
      "\<forall>j<i. unreleasedRx_exec (lines ! j) = None"
      "CHR ''$'' \<notin> set version" "CHR ''$'' \<notin> set today"
      "newLine = hd caps @ ''['' @ version @ ''] - '' @ today"
    for i caps newLine
  proof -
    have a: "update_changelog versionArg today content
        = Inr (join_with [LF] (lines[i := newLine]))"
      using upd update_lines_unreleased [OF h(1-6)] h(7) by simp
    from unreleasedRx_exec_shape [OF h(3)] obtain s
      where n: "1 \<le> run is_hash (lines ! i)" "run is_hash (lines ! i) \<le> 6"
        and p: "hd caps = replicate (run is_hash (lines ! i)) (CHR ''#'') @ s"
          "list_all is_space s" "take (length (hd caps)) (lines ! i) = hd caps"
      by blast
    have "newLine = replicate (run is_hash (lines ! i)) (CHR ''#'') @ s
        @ CHR ''['' # (version @ ''] - '' @ today)"
      using h(7) p(1) by simp
    then have c: "run is_hash newLine = run is_hash (lines ! i)"
      using run_hash_rewritten [OF p(2)] by simp
    have b: "\<exists>h s. 1 \<le> h \<and> h \<le> 6 \<and> hd caps = replicate h (CHR ''#'') @ s
        \<and> list_all is_space s \<and> take (length (hd caps)) (lines ! i) = hd caps"
      using n p by blast
    show ?thesis
      by (intro conjI) (fact a b c)+
  qed
  show ?thesis
  proof (intro conjI allI impI)
    fix i prefix ver newLine
    assume "i < length lines \<and> versionRx_exec version (lines ! i) = Some (prefix, ver)
        \<and> (\<forall>j<i. versionRx_exec version (lines ! j) = None)
        \<and> newLine = prefix @ ''['' @ strip_v ver @ ''] - '' @ today"
    then have h: "i < length lines" "versionRx_exec version (lines ! i) = Some (prefix, ver)"
      "\<forall>j<i. versionRx_exec version (lines ! j) = None"
      "newLine = prefix @ ''['' @ strip_v ver @ ''] - '' @ today"
      by simp_all
    note r = first [OF h]
    show "update_changelog versionArg today content = Inr (join_with [LF] (lines[i := newLine]))"
      using r by (rule conjunct1)
    show "\<exists>h s. 1 \<le> h \<and> h \<le> 6 \<and> prefix = replicate h (CHR ''#'') @ s
        \<and> list_all is_space s \<and> take (length prefix) (lines ! i) = prefix"
      using r by blast
    show "\<exists>q w. ver = q @ w \<and> (q = [] \<or> q = ''v'' \<or> q = ''V'')
        \<and> length w = length version \<and> ci_prefix version w"
      using r by blast
    show "run is_hash newLine = run is_hash (lines ! i)"
      if "version \<noteq> [] \<and> hd version \<noteq> CHR ''#''"
      using r that by blast
  next
    fix i caps newLine
    assume "(\<forall>l\<in>set lines. versionRx_exec version l = None) \<and> i < length lines
        \<and> unreleasedRx_exec (lines ! i) = Some caps
        \<and> (\<forall>j<i. unreleasedRx_exec (lines ! j) = None)
        \<and> CHR ''$'' \<notin> set version \<and> CHR ''$'' \<notin> set today
        \<and> newLine = hd caps @ ''['' @ version @ ''] - '' @ today"
    then have h: "\<forall>l\<in>set lines. versionRx_exec version l = None" "i < length lines"
      "unreleasedRx_exec (lines ! i) = Some caps"
      "\<forall>j<i. unreleasedRx_exec (lines ! j) = None"
      "CHR ''$'' \<notin> set version" "CHR ''$'' \<notin> set today"
      "newLine = hd caps @ ''['' @ version @ ''] - '' @ today"
      by simp_all
    note r = second [OF h]
    show "update_changelog versionArg today content = Inr (join_with [LF] (lines[i := newLine]))"
      using r by (rule conjunct1)
    show "\<exists>h s. 1 \<le> h \<and> h \<le> 6 \<and> hd caps = replicate h (CHR ''#'') @ s
        \<and> list_all is_space s \<and> take (length (hd caps)) (lines ! i) = hd caps"
      using r by blast
    show "run is_hash newLine = run is_hash (lines ! i)"
      using r by blast
  next
    fix h :: nat and sp b w rest :: string
    assume "1 \<le> h \<and> h \<le> 6 \<and> list_all is_space sp \<and> (b = [] \<or> b = ''['')
        \<and> ci_prefix ''Unreleased'' w \<and> length w = 10 \<and> no_terminator rest"
    then have "1 \<le> h" "h \<le> 6" "list_all is_space sp" "b = [] \<or> b = ''[''"
      "ci_prefix ''Unreleased'' w" "length w = 10" "no_terminator rest"
      by simp_all
    then show "\<exists>caps. unreleasedRx_exec (replicate h (CHR ''#'') @ sp @ b @ w @ rest)
          = Some caps
        \<and> hd caps = replicate h (CHR ''#'') @ sp"
      by (rule unreleasedRx_exec_build)
  qed
qed


theorem C4_header_rewrite_witness:
  "''1.0.0'' \<noteq> [] \<and> ''1.0.0'' = strip_v ''1.0.0''
   \<and> versionRx_exec ''1.0.0'' (split_lines changelog_v_heading ! 2) = Some (''## '', ''v1.0.0'')
   \<and> find_first (\<lambda>l. versionRx_exec ''1.0.0'' l \<noteq> None) (split_lines changelog_v_heading)
       = Some 2
   \<and> update_changelog ''1.0.0'' ''2025-01-01'' changelog_v_heading
       = Inr (join_with [LF]
           [''# Changelog'', [], ''## [1.0.0] - 2025-01-01'', [], ''- Release notes'', []])
   \<and> ''1.1.0'' \<noteq> [] \<and> ''1.1.0'' = strip_v ''1.1.0''
   \<and> list_all (\<lambda>l. versionRx_exec ''1.1.0'' l = None) (split_lines changelog_unreleased)
   \<and> unreleasedRx_exec (split_lines changelog_unreleased ! 2)
       = Some [''## '', ''['', ''Unreleased'', '']'', []]
   \<and> find_first (\<lambda>l. unreleasedRx_exec l \<noteq> None) (split_lines changelog_unreleased) = Some 2
   \<and> CHR ''$'' \<notin> set ''1.1.0'' \<and> CHR ''$'' \<notin> set ''2025-01-01''
   \<and> update_changelog ''1.1.0'' ''2025-01-01'' changelog_unreleased
       = Inr (join_with [LF]
           [''# Changelog'', [], ''## [1.1.0] - 2025-01-01'', [], ''### Added'', ''- thing'', [],
            ''## [1.0.0] - 2024-01-01'', [], ''- old'', []])
   \<and> list_all is_space ''  '' \<and> ci_prefix ''Unreleased'' ''UNRELEASED''
   \<and> no_terminator '' notes''
   \<and> hd (the (unreleasedRx_exec ''###  UNRELEASED notes'')) = ''###  ''"
proof -
  let ?vs = "split_lines changelog_v_heading" and ?us = "split_lines changelog_unreleased"
  have vs: "?vs = [''# Changelog'', [], ''## [v1.0.0]'', [], ''- Release notes'', []]"
    by code_simp
  have us: "?us = [''# Changelog'', [], ''## [Unreleased]'', [], ''### Added'', ''- thing'', [],
      ''## [1.0.0] - 2024-01-01'', [], ''- old'', []]"
    by code_simp
  have a1: "''1.0.0'' \<noteq> []" and b1: "''1.0.0'' = strip_v ''1.0.0''"
    and a2: "''1.1.0'' \<noteq> []" and b2: "''1.1.0'' = strip_v ''1.1.0''"
    by (simp_all add: strip_v_def)
  have e1: "versionRx_exec ''1.0.0'' (?vs ! 2) = Some (''## '', ''v1.0.0'')"
    by code_simp
  have f1: "find_first (\<lambda>l. versionRx_exec ''1.0.0'' l \<noteq> None) ?vs = Some 2"
    by code_simp
  have n1: "''## [1.0.0] - 2025-01-01'' = ''## '' @ ''['' @ strip_v ''v1.0.0'' @ ''] - '' @ ''2025-01-01''"
    by (simp add: strip_v_def)
  have pre1: "2 < length ?vs \<and> versionRx_exec ''1.0.0'' (?vs ! 2) = Some (''## '', ''v1.0.0'')
      \<and> (\<forall>j<2. versionRx_exec ''1.0.0'' (?vs ! j) = None)
      \<and> ''## [1.0.0] - 2025-01-01'' = ''## '' @ ''['' @ strip_v ''v1.0.0'' @ ''] - '' @ ''2025-01-01''"
  proof (intro conjI)
    show "2 < length ?vs" and "\<forall>j<2. versionRx_exec ''1.0.0'' (?vs ! j) = None"
      using f1 [unfolded find_first_Some] by blast+
  qed (fact e1 n1)+
  have r1: "update_changelog ''1.0.0'' ''2025-01-01'' changelog_v_heading
      = Inr (join_with [LF] (?vs[2 := ''## [1.0.0] - 2025-01-01'']))"
    using C4_header_rewrite [OF a1 b1 refl, of changelog_v_heading "''2025-01-01''",
        THEN conjunct1, rule_format, OF pre1]
    by (rule conjunct1)
  have none2: "\<forall>l\<in>set ?us. versionRx_exec ''1.1.0'' l = None"
    by code_simp
  have e2: "unreleasedRx_exec (?us ! 2) = Some [''## '', ''['', ''Unreleased'', '']'', []]"
    by code_simp
  have f2: "find_first (\<lambda>l. unreleasedRx_exec l \<noteq> None) ?us = Some 2"
    by code_simp
  have d2: "CHR ''$'' \<notin> set ''1.1.0''" "CHR ''$'' \<notin> set ''2025-01-01''"
    by simp_all
  have n2: "''## [1.1.0] - 2025-01-01''
      = hd [''## '', ''['', ''Unreleased'', '']'', []] @ ''['' @ ''1.1.0'' @ ''] - '' @ ''2025-01-01''"
    by simp
  have pre2: "(\<forall>l\<in>set ?us. versionRx_exec ''1.1.0'' l = None) \<and> 2 < length ?us
      \<and> unreleasedRx_exec (?us ! 2) = Some [''## '', ''['', ''Unreleased'', '']'', []]
      \<and> (\<forall>j<2. unreleasedRx_exec (?us ! j) = None)
      \<and> CHR ''$'' \<notin> set ''1.1.0'' \<and> CHR ''$'' \<notin> set ''2025-01-01''
      \<and> ''## [1.1.0] - 2025-01-01''
          = hd [''## '', ''['', ''Unreleased'', '']'', []] @ ''['' @ ''1.1.0'' @ ''] - '' @ ''2025-01-01''"
  proof (intro conjI)
    show "2 < length ?us" and "\<forall>j<2. unreleasedRx_exec (?us ! j) = None"
      using f2 [unfolded find_first_Some] by blast+
  qed (fact none2 e2 d2 n2)+
  have r2: "update_changelog ''1.1.0'' ''2025-01-01'' changelog_unreleased
      = Inr (join_with [LF] (?us[2 := ''## [1.1.0] - 2025-01-01'']))"
    using C4_header_rewrite [OF a2 b2 refl, of changelog_unreleased "''2025-01-01''",
        THEN conjunct2, THEN conjunct1, rule_format, OF pre2]
    by (rule conjunct1)
  have s3: "list_all is_space ''  ''" and w3: "ci_prefix ''Unreleased'' ''UNRELEASED''"
    and t3: "no_terminator '' notes''"
    by code_simp+
  have pre3: "1 \<le> (3::nat) \<and> (3::nat) \<le> 6 \<and> list_all is_space ''  ''
      \<and> (([]::string) = [] \<or> ([]::string) = ''['')
      \<and> ci_prefix ''Unreleased'' ''UNRELEASED'' \<and> length ''UNRELEASED'' = 10
      \<and> no_terminator '' notes''"
    using s3 w3 t3 by simp
  have "\<exists>caps. unreleasedRx_exec
        (replicate 3 (CHR ''#'') @ ''  '' @ [] @ ''UNRELEASED'' @ '' notes'') = Some caps
      \<and> hd caps = replicate 3 (CHR ''#'') @ ''  ''"
    using C4_header_rewrite [OF a1 b1 refl, of changelog_v_heading "''2025-01-01''",
        THEN conjunct2, THEN conjunct2, rule_format, OF pre3] .
  then have r3: "hd (the (unreleasedRx_exec ''###  UNRELEASED notes'')) = ''###  ''"
    by (auto simp add: eval_nat_numeral)
  have l1: "?vs[2 := ''## [1.0.0] - 2025-01-01'']
      = [''# Changelog'', [], ''## [1.0.0] - 2025-01-01'', [], ''- Release notes'', []]"
    by (simp add: vs)
  have l2: "?us[2 := ''## [1.1.0] - 2025-01-01'']
      = [''# Changelog'', [], ''## [1.1.0] - 2025-01-01'', [], ''### Added'', ''- thing'', [],
         ''## [1.0.0] - 2024-01-01'', [], ''- old'', []]"
    by (simp add: us)
  have all2: "list_all (\<lambda>l. versionRx_exec ''1.1.0'' l = None) ?us"
    using none2 by (simp add: list_all_iff)
  show ?thesis
    by (intro conjI) (fact a1 b1 e1 f1 r1 [unfolded l1] a2 b2 all2 e2 f2 d2 r2 [unfolded l2] s3 w3 t3
      r3)+
qed

text \<open>
  C4, as the claim states it, fails: the header keeps the letter case of the old heading,
  not that of the version asked for.
\<close>

theorem C4_letter_case_counterexample:
  "versionRx_exec ''1.0.0-RC1'' ''## 1.0.0-rc1 (unreleased)'' = Some (''## '', ''1.0.0-rc1'')
   \<and> update_changelog ''1.0.0-RC1'' ''2025-01-01'' ''## 1.0.0-rc1 (unreleased)''
       = Inr ''## [1.0.0-rc1] - 2025-01-01''
   \<and> ''## [1.0.0-rc1] - 2025-01-01'' \<noteq> ''## [1.0.0-RC1] - 2025-01-01''"
  by code_simp

section \<open>Applying the update twice\<close>

lemma split_lines_LF: "split_lines (LF # t) = [] # split_lines t"
  by (cases t) simp_all

lemma split_lines_push:
  assumes "c \<noteq> LF" and "t \<noteq> []" and "c \<noteq> CR \<or> hd t \<noteq> LF"
  shows "split_lines (c # t) = push c (split_lines t)"
  using assms by (cases t) auto

lemma split_lines_append:
  assumes "stable_line l"
  shows "split_lines (l @ LF # t) = l # split_lines t"
  using assms
proof (induction l)
  case Nil
  then show ?case by (simp add: split_lines_LF)
next
  case (Cons c l)
  have c: "c \<noteq> LF" and l: "LF \<notin> set l"
    using Cons.prems by (auto simp add: stable_line_def)
  have st: "stable_line l"
    using Cons.prems by (cases l) (auto simp add: stable_line_def)
  have "c \<noteq> CR \<or> hd (l @ LF # t) \<noteq> LF"
  proof (cases l)
    case Nil
    then show ?thesis using Cons.prems by (auto simp add: stable_line_def)
  next
    case (Cons d ds)
    then show ?thesis using l by auto
  qed
  then have "split_lines (c # (l @ LF # t)) = push c (split_lines (l @ LF # t))"
    using c by (intro split_lines_push) simp_all
  then show ?case
    using Cons.IH [OF st] by (simp add: push_def)
qed

lemma split_lines_single: "LF \<notin> set l \<Longrightarrow> split_lines l = [l]"
proof (induction l rule: split_lines.induct)
  case 1
  then show ?case by simp
next
  case (2 c)
  then show ?case by simp
next
  case (3 c d cs)
  then show ?case by (auto simp add: push_def)
qed

lemma split_join:
  assumes "ls \<noteq> []" and "\<forall>l\<in>set ls. stable_line l"
  shows "split_lines (join_with [LF] ls) = ls"
  using assms
proof (induction "[LF]" ls rule: join_with.induct)
  case 1
  then show ?case by simp
next
  case (2 l)
  then show ?case by (simp add: split_lines_single stable_line_def)
next
  case (3 l m ls)
  then show ?case by (simp add: split_lines_append)
qed

lemma split_lines_no_LF: "l \<in> set (split_lines s) \<Longrightarrow> LF \<notin> set l"
proof (induction s arbitrary: l rule: split_lines.induct)
  case 1
  then show ?case by simp
next
  case (2 c)
  then show ?case by (auto split: if_splits)
next
  case (3 c d cs)
  show ?case
  proof (cases "c = LF")
    case True
    then show ?thesis using 3 by auto
  next
    case False
    show ?thesis
    proof (cases "c = CR \<and> d = LF")
      case True
      then show ?thesis using 3 False by auto
    next
      case no: False
      then have "l \<in> set (push c (split_lines (d # cs)))"
        using 3(4) False by auto
      then show ?thesis
        using 3(3) [OF False no] False
        by (cases "split_lines (d # cs)") (auto simp add: push_def)
    qed
  qed
qed

lemma split_lines_nonempty: "split_lines s \<noteq> []"
  by (induction s rule: split_lines.induct) (auto simp add: push_def split: list.splits)


lemma canon_digit:
  assumes "is_digit d" and "canon d = canon c"
  shows "c = d"
proof -
  have d: "48 \<le> (of_char d :: nat)" "(of_char d :: nat) \<le> 57"
    using assms(1) by (simp_all add: is_digit_def Let_def)
  then have cd: "canon d = d"
    by (simp add: canon_def Let_def)
  show ?thesis
  proof (rule ccontr)
    assume ne: "c \<noteq> d"
    then have eq: "char_of ((of_char c :: nat) - 32) = d"
      and range: "97 \<le> (of_char c :: nat)"
      using assms(2) cd by (auto simp add: canon_def Let_def split: if_splits)
    from eq have "of_char (char_of ((of_char c :: nat) - 32)) = (of_char d :: nat)"
      by simp
    then have "((of_char c :: nat) - 32) mod 256 = of_char d"
      by simp
    moreover have "(of_char c :: nat) - 32 < 256"
      by (rule less_imp_diff_less) (rule nat_of_char_less_256)
    ultimately show False
      using range d by simp
  qed
qed

lemma ci_prefix_refl: "ci_prefix v v"
  by (induction v) simp_all

lemma ci_prefix_digit:
  assumes "version \<noteq> []" and "is_digit (hd version)" and "ci_prefix version w"
  shows "w \<noteq> [] \<and> hd w = hd version"
proof -
  obtain d ds where v: "version = d # ds"
    using assms(1) by (cases version) auto
  obtain c cs where w: "w = c # cs" and c: "canon d = canon c"
    using assms(3) v by (cases w) auto
  have "c = d"
    using assms(2) v c canon_digit by simp
  then show ?thesis using v w by simp
qed

lemma digit_not_v: "is_digit c \<Longrightarrow> \<not> is_v c"
  by (auto simp add: is_digit_def is_v_def Let_def)

lemma versionRx_exec_build:
  assumes h: "1 \<le> h" "h \<le> 6" and sp: "list_all is_space sp"
    and v: "version \<noteq> []" "is_digit (hd version)"
    and w: "ci_prefix version w" "length w = length version"
    and q: "q = [] \<or> q = ''V''"
    and rest: "no_terminator rest"
  shows "versionRx_exec version (replicate h (CHR ''#'') @ sp @ CHR ''['' # q @ w @ rest)
     = Some (replicate h (CHR ''#'') @ sp, q @ w)"
proof -
  let ?l = "replicate h (CHR ''#'') @ sp @ CHR ''['' # q @ w @ rest"
  let ?r1 = "sp @ CHR ''['' # q @ w @ rest"
  let ?r2 = "CHR ''['' # q @ w @ rest"
  let ?r3 = "q @ w @ rest"
  have hd_w: "w \<noteq> [] \<and> hd w = hd version"
    using ci_prefix_digit [OF v w(1)] .
  have m1: "min 6 (run is_hash ?l) = h"
    using run_hash_rewritten [OF sp, of h "q @ w @ rest"] h by simp
  have d1: "drop h ?l = ?r1"
    by simp
  have "run is_space (sp @ ?r2) = length sp"
    using sp by (intro run_append) (simp_all add: is_space_def)
  then have m2: "min (length ?r1) (run is_space ?r1) = length sp"
    by simp
  have d2: "drop (length sp) ?r1 = ?r2"
    by simp
  have "1 \<le> run is_lbracket ?r2"
    by (rule run_Cons_true) (simp add: is_lbracket_def)
  then have m3: "min 1 (run is_lbracket ?r2) = 1"
    by simp
  have d3: "drop 1 ?r2 = ?r3"
    by simp
  have m4: "min 1 (run is_v ?r3) = length q"
  proof (cases "q = []")
    case True
    obtain c cs where c: "w = c # cs" "is_digit c"
      using hd_w v(2) by (cases w) auto
    then have "run is_v (w @ rest) = 0"
      using digit_not_v by (simp add: run_Cons_false)
    then show ?thesis using True by simp
  next
    case False
    then have qv: "q = ''V''" using q by simp
    have "1 \<le> run is_v (CHR ''V'' # w @ rest)"
      by (rule run_Cons_true) (simp add: is_v_def)
    then show ?thesis using qv by simp
  qed
  have d4: "drop (length q) ?r3 = w @ rest"
    by simp
  have ok: "ci_prefix version (w @ rest) \<and> no_terminator (drop (length version) (w @ rest))"
    using w rest by (simp add: ci_prefix_append)
  have t1: "take (h + length sp) ?l = replicate h (CHR ''#'') @ sp"
    by simp
  have t2: "take (length q + length version) ?r3 = q @ w"
    using w(2) by simp
  have k: "first_some (\<lambda>v. if ci_prefix version (drop v ?r3)
          \<and> no_terminator (drop (length version) (drop v ?r3))
        then Some (take (h + length sp) ?l, take (v + length version) ?r3) else None)
      (greedy is_v 0 1 ?r3) = Some (replicate h (CHR ''#'') @ sp, q @ w)"
    by (rule first_some_greedy) (simp_all only: m4 d4 ok t1 t2 simp_thms if_True le0)
  have b: "first_some (\<lambda>b. first_some (\<lambda>v. if ci_prefix version (drop v (drop b ?r2))
          \<and> no_terminator (drop (length version) (drop v (drop b ?r2)))
        then Some (take (h + length sp) ?l, take (v + length version) (drop b ?r2)) else None)
      (greedy is_v 0 1 (drop b ?r2))) (greedy is_lbracket 0 1 ?r2)
      = Some (replicate h (CHR ''#'') @ sp, q @ w)"
    by (rule first_some_greedy) (simp_all only: m3 d3 k le0)
  have s: "first_some (\<lambda>s. first_some (\<lambda>b. first_some (\<lambda>v.
        if ci_prefix version (drop v (drop b (drop s ?r1)))
          \<and> no_terminator (drop (length version) (drop v (drop b (drop s ?r1))))
        then Some (take (h + s) ?l, take (v + length version) (drop b (drop s ?r1))) else None)
      (greedy is_v 0 1 (drop b (drop s ?r1)))) (greedy is_lbracket 0 1 (drop s ?r1)))
      (greedy is_space 0 (length ?r1) ?r1)
      = Some (replicate h (CHR ''#'') @ sp, q @ w)"
    by (rule first_some_greedy) (simp_all only: m2 d2 b le0)
  show ?thesis
    unfolding versionRx_exec_def Let_def
    by (rule first_some_greedy) (simp_all only: m1 d1 s h)
qed


lemma versionRx_exec_Nil: "versionRx_exec version [] = None"
  by (simp add: versionRx_exec_def greedy_def run_def)

lemma no_terminator_tail:
  "no_terminator today \<Longrightarrow> no_terminator (''] - '' @ today)"
  by (simp add: no_terminator_def is_line_terminator_def)

lemma strip_v_digit:
  assumes "w \<noteq> []" and "is_digit (hd w)"
  shows "strip_v w = w"
  using assms by (cases w) (auto simp add: strip_v_def is_digit_def Let_def)

lemma rewritten_token:
  assumes v: "version \<noteq> []" "is_digit (hd version)"
    and ver: "ver = q @ w" "q = [] \<or> q = ''v'' \<or> q = ''V''" "ci_prefix version w"
  shows "\<exists>q'. strip_v ver = q' @ w \<and> (q' = [] \<or> q' = ''V'') \<and> strip_v (q' @ w) = q' @ w"
proof -
  have w: "w \<noteq> []" "is_digit (hd w)"
    using ci_prefix_digit [OF v ver(3)] v(2) by simp_all
  then have sw: "strip_v w = w"
    by (rule strip_v_digit)
  consider "q = []" | "q = ''v''" | "q = ''V''"
    using ver(2) by blast
  then show ?thesis
  proof cases
    case 1
    then have "strip_v ver = [] @ w" "strip_v ([] @ w) = [] @ w"
      using ver(1) sw by simp_all
    then show ?thesis by blast
  next
    case 2
    then have "strip_v ver = [] @ w" "strip_v ([] @ w) = [] @ w"
      using ver(1) sw by (simp_all add: strip_v_def)
    then show ?thesis by blast
  next
    case 3
    then have "strip_v ver = ''V'' @ w" "strip_v (''V'' @ w) = ''V'' @ w"
      using ver(1) by (simp_all add: strip_v_def)
    then show ?thesis by blast
  qed
qed

lemma rewritten_line_matches:
  assumes v: "version \<noteq> []" "is_digit (hd version)" and t: "no_terminator today"
    and e: "versionRx_exec version l = Some (prefix, ver)"
    and nl: "newLine = prefix @ ''['' @ strip_v ver @ ''] - '' @ today"
  shows "versionRx_exec version newLine = Some (prefix, strip_v ver)
       \<and> strip_v (strip_v ver) = strip_v ver"
proof -
  from versionRx_exec_shape [OF e] obtain h sp q w
    where h: "1 \<le> h" "h \<le> 6" and p: "prefix = replicate h (CHR ''#'') @ sp"
      and sp: "list_all is_space sp"
      and ver: "ver = q @ w" "q = [] \<or> q = ''v'' \<or> q = ''V''"
      and w: "length w = length version" "ci_prefix version w"
    by blast
  from rewritten_token [OF v ver w(2)] obtain q'
    where q': "strip_v ver = q' @ w" "q' = [] \<or> q' = ''V''" "strip_v (q' @ w) = q' @ w"
    by blast
  have "newLine = replicate h (CHR ''#'') @ sp @ CHR ''['' # q' @ w @ (''] - '' @ today)"
    using nl p q'(1) by simp
  moreover have "versionRx_exec version
      (replicate h (CHR ''#'') @ sp @ CHR ''['' # q' @ w @ (''] - '' @ today))
      = Some (replicate h (CHR ''#'') @ sp, q' @ w)"
    using h sp v w(2,1) q'(2) no_terminator_tail [OF t] by (rule versionRx_exec_build)
  ultimately show ?thesis
    using p q'(1,3) by simp
qed

lemma fresh_line_matches:
  assumes v: "version \<noteq> []" "is_digit (hd version)" and t: "no_terminator today"
    and h: "1 \<le> h" "h \<le> 6" and sp: "list_all is_space sp"
    and nl: "newLine = replicate h (CHR ''#'') @ sp @ ''['' @ version @ ''] - '' @ today"
  shows "versionRx_exec version newLine = Some (replicate h (CHR ''#'') @ sp, version)
       \<and> strip_v version = version"
proof -
  have "newLine = replicate h (CHR ''#'') @ sp @ CHR ''['' # [] @ version @ (''] - '' @ today)"
    using nl by simp
  moreover have "versionRx_exec version
      (replicate h (CHR ''#'') @ sp @ CHR ''['' # [] @ version @ (''] - '' @ today))
      = Some (replicate h (CHR ''#'') @ sp, [] @ version)"
    using h sp v ci_prefix_refl refl _ no_terminator_tail [OF t]
    by (rule versionRx_exec_build) simp
  ultimately show ?thesis
    using strip_v_digit [OF v] by simp
qed


lemma header_matches:
  assumes v: "version \<noteq> []" "is_digit (hd version)" and t: "no_terminator today"
  shows "versionRx_exec version (''## ['' @ version @ ''] - '' @ today) = Some (''## '', version)
       \<and> strip_v version = version"
proof -
  have r: "replicate 2 (CHR ''#'') = ''##''"
    by (simp add: numeral_2_eq_2)
  have sp: "list_all is_space '' ''"
    by (simp add: is_space_def)
  have "versionRx_exec version (replicate 2 (CHR ''#'') @ '' '' @ ''['' @ version @ ''] - '' @ today)
      = Some (replicate 2 (CHR ''#'') @ '' '', version) \<and> strip_v version = version"
    using v t _ _ sp refl by (rule fresh_line_matches) simp_all
  then show ?thesis
    unfolding r by simp
qed

lemma find_first_matchD:
  "find_first (\<lambda>l. f l \<noteq> None) xs = Some i \<Longrightarrow>
     i < length xs \<and> f (xs ! i) \<noteq> None \<and> (\<forall>j<i. f (xs ! j) = None)"
  by (simp add: find_first_Some)

lemma find_first_no_matchD:
  "find_first (\<lambda>l. f l \<noteq> None) xs = None \<Longrightarrow> \<forall>l\<in>set xs. f l = None"
  by (simp add: find_first_None)

lemma update_lines_fixpoint:
  assumes v: "version \<noteq> []" "is_digit (hd version)" "CHR ''$'' \<notin> set version"
    and t: "CHR ''$'' \<notin> set today" "no_terminator today"
  shows "update_lines version today (update_lines version today ls)
     = update_lines version today ls"
proof (cases "find_first (\<lambda>l. versionRx_exec version l \<noteq> None) ls")
  case (Some i)
  then have i: "i < length ls" and before: "\<forall>j<i. versionRx_exec version (ls ! j) = None"
    and "versionRx_exec version (ls ! i) \<noteq> None"
    using find_first_matchD [of "versionRx_exec version" ls i] by blast+
  then obtain prefix ver where e: "versionRx_exec version (ls ! i) = Some (prefix, ver)"
    by (cases "versionRx_exec version (ls ! i)") auto
  let ?nl = "prefix @ ''['' @ strip_v ver @ ''] - '' @ today"
  have once: "update_lines version today ls = ls[i := ?nl]"
    using i e before by (rule update_lines_version)
  have m: "versionRx_exec version ?nl = Some (prefix, strip_v ver)"
    and idem: "strip_v (strip_v ver) = strip_v ver"
    using rewritten_line_matches [OF v(1,2) t(2) e refl] by simp_all
  have i': "i < length (ls[i := ?nl])"
    using i by simp
  have e': "versionRx_exec version (ls[i := ?nl] ! i) = Some (prefix, strip_v ver)"
    using i m by simp
  have before': "\<forall>j<i. versionRx_exec version (ls[i := ?nl] ! j) = None"
    using before by simp
  have "update_lines version today (ls[i := ?nl])
      = (ls[i := ?nl])[i := prefix @ ''['' @ strip_v (strip_v ver) @ ''] - '' @ today]"
    using i' e' before' by (rule update_lines_version)
  then have "update_lines version today (ls[i := ?nl]) = ls[i := ?nl]"
    using idem by simp
  then show ?thesis
    using once by simp
next
  case None
  then have none: "\<forall>l\<in>set ls. versionRx_exec version l = None"
    by (rule find_first_no_matchD)
  show ?thesis
  proof (cases "find_first (\<lambda>l. unreleasedRx_exec l \<noteq> None) ls")
    case (Some i)
    then have i: "i < length ls" and before: "\<forall>j<i. unreleasedRx_exec (ls ! j) = None"
      and "unreleasedRx_exec (ls ! i) \<noteq> None"
      using find_first_matchD [of unreleasedRx_exec ls i] by blast+
    then obtain caps where e: "unreleasedRx_exec (ls ! i) = Some caps"
      by (cases "unreleasedRx_exec (ls ! i)") auto
    let ?nl = "hd caps @ ''['' @ version @ ''] - '' @ today"
    have once: "update_lines version today ls = ls[i := ?nl]"
      using none i e before v(3) t(1) by (rule update_lines_unreleased)
    from unreleasedRx_exec_shape [OF e] obtain sp
      where n: "1 \<le> run is_hash (ls ! i)" "run is_hash (ls ! i) \<le> 6"
        and p: "hd caps = replicate (run is_hash (ls ! i)) (CHR ''#'') @ sp"
        and sp: "list_all is_space sp"
      by blast
    have nl: "?nl = replicate (run is_hash (ls ! i)) (CHR ''#'') @ sp @ ''['' @ version
        @ ''] - '' @ today"
      using p by simp
    have m: "versionRx_exec version ?nl = Some (hd caps, version)"
      and sv: "strip_v version = version"
      using fresh_line_matches [OF v(1,2) t(2) n sp nl] p by simp_all
    have i': "i < length (ls[i := ?nl])"
      using i by simp
    have e': "versionRx_exec version (ls[i := ?nl] ! i) = Some (hd caps, version)"
      using i m by simp
    have before': "\<forall>j<i. versionRx_exec version (ls[i := ?nl] ! j) = None"
      using none i by simp
    have "update_lines version today (ls[i := ?nl])
        = (ls[i := ?nl])[i := hd caps @ ''['' @ strip_v version @ ''] - '' @ today]"
      using i' e' before' by (rule update_lines_version)
    then have "update_lines version today (ls[i := ?nl]) = ls[i := ?nl]"
      using sv by simp
    then show ?thesis
      using once by simp
  next
    case unreleased: None
    then have none': "\<forall>l\<in>set ls. unreleasedRx_exec l = None"
      by (rule find_first_no_matchD)
    let ?k = "insert_index ls"
    let ?out = "take ?k ls @ new_section version today @ drop ?k ls"
    let ?hd = "''## ['' @ version @ ''] - '' @ today"
    have once: "update_lines version today ls = ?out"
      using none none' by (rule update_lines_new)
    have k: "?k \<le> length ls"
      by (rule insert_index_le)
    have len: "length (new_section version today) = 7"
      by (simp add: new_section_def)
    note nth = inserted_nth [OF k len]
    have at0: "?out ! ?k = []"
      using nth [THEN conjunct2, THEN conjunct1, rule_format, of 0]
      by (simp add: new_section_def)
    have at1: "?out ! Suc ?k = ?hd"
      using nth [THEN conjunct2, THEN conjunct1, rule_format, of 1]
      by (simp add: new_section_def)
    have m: "versionRx_exec version ?hd = Some (''## '', version)"
      and sv: "strip_v version = version"
      using header_matches [OF v(1,2) t(2)] by simp_all
    have i': "Suc ?k < length ?out"
      using k len by simp
    have e': "versionRx_exec version (?out ! Suc ?k) = Some (''## '', version)"
      using at1 m by simp
    have before': "\<forall>j<Suc ?k. versionRx_exec version (?out ! j) = None"
    proof (intro allI impI)
      fix j
      assume j: "j < Suc ?k"
      show "versionRx_exec version (?out ! j) = None"
      proof (cases "j = ?k")
        case True
        then show ?thesis using at0 by (simp add: versionRx_exec_Nil)
      next
        case False
        then have jk: "j < ?k" using j by simp
        then have "?out ! j = ls ! j"
          using nth by blast
        moreover have "ls ! j \<in> set ls"
          using jk k by simp
        ultimately show ?thesis using none by simp
      qed
    qed
    have "update_lines version today ?out
        = ?out[Suc ?k := ''## '' @ ''['' @ strip_v version @ ''] - '' @ today]"
      using i' e' before' by (rule update_lines_version)
    moreover have "''## '' @ ''['' @ strip_v version @ ''] - '' @ today = ?out ! Suc ?k"
      using at1 sv by simp
    ultimately have "update_lines version today ?out = ?out"
      by (simp only: list_update_id)
    then show ?thesis
      using once by simp
  qed
qed


lemma versionRx_exec_subset:
  assumes "versionRx_exec version l = Some (p, ver)"
  shows "set p \<subseteq> set l \<and> set ver \<subseteq> set l"
proof -
  from versionRx_exec_SomeD [OF assms] obtain h s b v
    where p: "p = take (h + s) l"
      and ver: "ver = take (v + length version) (drop b (drop s (drop h l)))"
    by blast
  have "set p \<subseteq> set l"
    unfolding p by (rule set_take_subset)
  moreover have "set ver \<subseteq> set l"
    unfolding ver by (meson in_set_dropD in_set_takeD subsetI)
  ultimately show ?thesis by simp
qed

lemma strip_v_subset: "set (strip_v ver) \<subseteq> set ver"
  by (cases ver) (auto simp add: strip_v_def)

lemma stable_header:
  assumes "LF \<notin> set a" and "no_terminator today"
  shows "stable_line (a @ ''] - '' @ today)"
proof -
  have t: "\<forall>c\<in>set today. c \<noteq> LF \<and> c \<noteq> CR"
    using assms(2) by (simp add: no_terminator_def list_all_iff is_line_terminator_def)
  have "last (a @ ''] - '' @ today) \<noteq> CR"
  proof (cases "today = []")
    case True
    then show ?thesis by simp
  next
    case False
    then have "last (a @ ''] - '' @ today) = last today" by simp
    moreover have "last today \<in> set today" using False by simp
    ultimately show ?thesis using t by auto
  qed
  moreover have "LF \<notin> set (a @ ''] - '' @ today)"
    using assms(1) t by auto
  ultimately show ?thesis
    by (simp add: stable_line_def)
qed

lemma update_lines_stable:
  assumes ls: "\<forall>l\<in>set ls. stable_line l"
    and v: "LF \<notin> set version" "CHR ''$'' \<notin> set version"
    and t: "CHR ''$'' \<notin> set today" "no_terminator today"
  shows "\<forall>l\<in>set (update_lines version today ls). stable_line l"
proof (cases "find_first (\<lambda>l. versionRx_exec version l \<noteq> None) ls")
  case (Some i)
  then have i: "i < length ls" and before: "\<forall>j<i. versionRx_exec version (ls ! j) = None"
    and "versionRx_exec version (ls ! i) \<noteq> None"
    using find_first_matchD [of "versionRx_exec version" ls i] by blast+
  then obtain prefix ver where e: "versionRx_exec version (ls ! i) = Some (prefix, ver)"
    by (cases "versionRx_exec version (ls ! i)") auto
  let ?nl = "prefix @ ''['' @ strip_v ver @ ''] - '' @ today"
  have once: "update_lines version today ls = ls[i := ?nl]"
    using i e before by (rule update_lines_version)
  have "LF \<notin> set (ls ! i)"
    using ls i by (simp add: stable_line_def)
  then have "LF \<notin> set prefix" "LF \<notin> set (strip_v ver)"
    using versionRx_exec_subset [OF e] strip_v_subset [of ver] by auto
  then have "LF \<notin> set (prefix @ ''['' @ strip_v ver)"
    by simp
  then have "stable_line ((prefix @ ''['' @ strip_v ver) @ ''] - '' @ today)"
    using t(2) by (rule stable_header)
  then have "stable_line ?nl"
    by simp
  moreover have "set (ls[i := ?nl]) \<subseteq> insert ?nl (set ls)"
    by (rule set_update_subset_insert)
  ultimately show ?thesis
    using once ls by auto
next
  case None
  then have none: "\<forall>l\<in>set ls. versionRx_exec version l = None"
    by (rule find_first_no_matchD)
  show ?thesis
  proof (cases "find_first (\<lambda>l. unreleasedRx_exec l \<noteq> None) ls")
    case (Some i)
    then have i: "i < length ls" and before: "\<forall>j<i. unreleasedRx_exec (ls ! j) = None"
      and "unreleasedRx_exec (ls ! i) \<noteq> None"
      using find_first_matchD [of unreleasedRx_exec ls i] by blast+
    then obtain caps where e: "unreleasedRx_exec (ls ! i) = Some caps"
      by (cases "unreleasedRx_exec (ls ! i)") auto
    let ?nl = "hd caps @ ''['' @ version @ ''] - '' @ today"
    have once: "update_lines version today ls = ls[i := ?nl]"
      using none i e before v(2) t(1) by (rule update_lines_unreleased)
    have "take (length (hd caps)) (ls ! i) = hd caps"
      using unreleasedRx_exec_shape [OF e] by blast
    then have "set (hd caps) \<subseteq> set (ls ! i)"
      by (metis set_take_subset)
    moreover have "LF \<notin> set (ls ! i)"
      using ls i by (simp add: stable_line_def)
    ultimately have "LF \<notin> set (hd caps @ ''['' @ version)"
      using v(1) by auto
    then have "stable_line ((hd caps @ ''['' @ version) @ ''] - '' @ today)"
      using t(2) by (rule stable_header)
    then have "stable_line ?nl"
      by simp
    moreover have "set (ls[i := ?nl]) \<subseteq> insert ?nl (set ls)"
      by (rule set_update_subset_insert)
    ultimately show ?thesis
      using once ls by auto
  next
    case unreleased: None
    then have none': "\<forall>l\<in>set ls. unreleasedRx_exec l = None"
      by (rule find_first_no_matchD)
    let ?k = "insert_index ls"
    have once: "update_lines version today ls
        = take ?k ls @ new_section version today @ drop ?k ls"
      using none none' by (rule update_lines_new)
    have "LF \<notin> set (''## ['' @ version)"
      using v(1) by simp
    then have "stable_line ((''## ['' @ version) @ ''] - '' @ today)"
      using t(2) by (rule stable_header)
    then have "\<forall>l\<in>set (new_section version today). stable_line l"
      by (simp add: new_section_def stable_line_def)
    moreover have "\<forall>l\<in>set (take ?k ls). stable_line l" "\<forall>l\<in>set (drop ?k ls). stable_line l"
      using ls by (meson in_set_takeD, meson in_set_dropD)
    ultimately show ?thesis
      using once by auto
  qed
qed

lemma update_lines_nonempty: "ls \<noteq> [] \<Longrightarrow> update_lines version today ls \<noteq> []"
  by (simp add: update_lines_def new_section_def Let_def split: option.split)

lemma update_twice:
  assumes "versionArg \<noteq> []" and "version = strip_v versionArg"
    and "version \<noteq> []" and "is_digit (hd version)"
    and "\<forall>c\<in>set version. c \<noteq> CHR ''$'' \<and> \<not> is_line_terminator c"
    and "\<forall>c\<in>set today. c \<noteq> CHR ''$'' \<and> \<not> is_line_terminator c"
    and "\<forall>l\<in>set (split_lines content). l = [] \<or> last l \<noteq> CR"
    and "text = join_with [LF] (update_lines version today (split_lines content))"
  shows "update_changelog versionArg today content = Inr text
       \<and> update_changelog versionArg today text = Inr text"
proof -
  let ?ls = "split_lines content"
  let ?out = "update_lines version today ?ls"
  have v: "LF \<notin> set version" "CHR ''$'' \<notin> set version"
    using assms(5) by (auto simp add: is_line_terminator_def)
  have t: "CHR ''$'' \<notin> set today" "no_terminator today"
    using assms(6) by (auto simp add: no_terminator_def list_all_iff)
  have "\<forall>l\<in>set ?ls. stable_line l"
    using assms(7) split_lines_no_LF by (auto simp add: stable_line_def)
  then have stable: "\<forall>l\<in>set ?out. stable_line l"
    using v t by (rule update_lines_stable)
  have "?out \<noteq> []"
    using split_lines_nonempty by (rule update_lines_nonempty)
  then have resplit: "split_lines text = ?out"
    unfolding assms(8) using stable by (rule split_join)
  have again: "update_lines version today ?out = ?out"
    using assms(3,4) v(2) t by (rule update_lines_fixpoint)
  have first: "update_changelog versionArg today content = Inr text"
    using assms(1,2,8) by (simp add: update_changelog_def)
  have "update_changelog versionArg today text
      = Inr (join_with [LF] (update_lines version today (split_lines text)))"
    using assms(1,2) by (simp add: update_changelog_def)
  then have "update_changelog versionArg today text = Inr (join_with [LF] ?out)"
    by (simp only: resplit again)
  then have "update_changelog versionArg today text = Inr text"
    by (simp only: assms(8))
  then show ?thesis
    using first by simp
qed

lemma versionRx_v2: "versionRx_exec ''2.0.0'' ''## v2.0.0'' = Some (''## '', ''v2.0.0'')"
  by code_simp


lemma first_heading_v2:
  assumes a: "lines = split_lines content" "i < length lines" "lines ! i = ''## v2.0.0''"
    "\<forall>j<i. versionRx_exec ''2.0.0'' (lines ! j) = None"
  shows "update_changelog ''2.0.0'' today content
      = Inr (join_with [LF] (lines[i := ''## [2.0.0] - '' @ today]))"
proof -
  have e: "versionRx_exec ''2.0.0'' (lines ! i) = Some (''## '', ''v2.0.0'')"
    unfolding a(3) by (rule versionRx_v2)
  have "update_lines ''2.0.0'' today lines
      = lines[i := ''## '' @ ''['' @ strip_v ''v2.0.0'' @ ''] - '' @ today]"
    using a(2) e a(4) by (rule update_lines_version)
  then have u: "update_lines ''2.0.0'' today lines = lines[i := ''## [2.0.0] - '' @ today]"
    by (simp add: strip_v_def)
  have "update_changelog ''2.0.0'' today content
      = Inr (join_with [LF] (update_lines ''2.0.0'' today lines))"
    unfolding a(1) by (simp add: update_changelog_def strip_v_def)
  then show ?thesis
    by (simp only: u)
qed


text \<open>
  C6, as the script behaves. Where the first line accepted by the version pattern of
  \<^verbatim>\<open>2.0.0\<close> reads \<^verbatim>\<open>## v2.0.0\<close>, the update for \<^verbatim>\<open>2.0.0\<close> turns it into
  \<^verbatim>\<open>## [2.0.0] - <today>\<close>. Applying the update to its own output, with the same
  version and date, gives that output again, for every version that starts with a digit
  and every version and date free of \<^verbatim>\<open>$\<close> and of line terminators, provided no line
  of the document, as the script splits it, ends in a carriage return.
\<close>

theorem C6_update_idempotent:
  "(\<forall>lines i. lines = split_lines content \<and> i < length lines \<and> lines ! i = ''## v2.0.0''
        \<and> (\<forall>j<i. versionRx_exec ''2.0.0'' (lines ! j) = None) \<longrightarrow>
      update_changelog ''2.0.0'' today content
        = Inr (join_with [LF] (lines[i := ''## [2.0.0] - '' @ today])))
   \<and> (versionArg \<noteq> [] \<and> version = strip_v versionArg \<and> version \<noteq> []
        \<and> is_digit (hd version)
        \<and> (\<forall>c\<in>set version. c \<noteq> CHR ''$'' \<and> \<not> is_line_terminator c)
        \<and> (\<forall>c\<in>set today. c \<noteq> CHR ''$'' \<and> \<not> is_line_terminator c)
        \<and> (\<forall>l\<in>set (split_lines content). l = [] \<or> last l \<noteq> CR) \<longrightarrow>
      (\<exists>text. update_changelog versionArg today content = Inr text
            \<and> update_changelog versionArg today text = Inr text))"
proof (rule conjI)
  show "\<forall>lines i. lines = split_lines content \<and> i < length lines \<and> lines ! i = ''## v2.0.0''
        \<and> (\<forall>j<i. versionRx_exec ''2.0.0'' (lines ! j) = None) \<longrightarrow>
      update_changelog ''2.0.0'' today content
        = Inr (join_with [LF] (lines[i := ''## [2.0.0] - '' @ today]))"
  proof (intro allI impI)
    fix lines i
    assume asm: "lines = split_lines content \<and> i < length lines \<and> lines ! i = ''## v2.0.0''
        \<and> (\<forall>j<i. versionRx_exec ''2.0.0'' (lines ! j) = None)"
    note a = asm [THEN conjunct1]
      asm [THEN conjunct2, THEN conjunct1]
      asm [THEN conjunct2, THEN conjunct2, THEN conjunct1]
      asm [THEN conjunct2, THEN conjunct2, THEN conjunct2]
    from a show "update_changelog ''2.0.0'' today content
        = Inr (join_with [LF] (lines[i := ''## [2.0.0] - '' @ today]))"
      by (rule first_heading_v2)
  qed
next
  show "versionArg \<noteq> [] \<and> version = strip_v versionArg \<and> version \<noteq> []
        \<and> is_digit (hd version)
        \<and> (\<forall>c\<in>set version. c \<noteq> CHR ''$'' \<and> \<not> is_line_terminator c)
        \<and> (\<forall>c\<in>set today. c \<noteq> CHR ''$'' \<and> \<not> is_line_terminator c)
        \<and> (\<forall>l\<in>set (split_lines content). l = [] \<or> last l \<noteq> CR) \<longrightarrow>
      (\<exists>text. update_changelog versionArg today content = Inr text
            \<and> update_changelog versionArg today text = Inr text)"
  proof (rule impI)
    assume asm: "versionArg \<noteq> [] \<and> version = strip_v versionArg \<and> version \<noteq> []
        \<and> is_digit (hd version)
        \<and> (\<forall>c\<in>set version. c \<noteq> CHR ''$'' \<and> \<not> is_line_terminator c)
        \<and> (\<forall>c\<in>set today. c \<noteq> CHR ''$'' \<and> \<not> is_line_terminator c)
        \<and> (\<forall>l\<in>set (split_lines content). l = [] \<or> last l \<noteq> CR)"
    note h = asm [THEN conjunct1]
      asm [THEN conjunct2, THEN conjunct1]
      asm [THEN conjunct2, THEN conjunct2, THEN conjunct1]
      asm [THEN conjunct2, THEN conjunct2, THEN conjunct2, THEN conjunct1]
      asm [THEN conjunct2, THEN conjunct2, THEN conjunct2, THEN conjunct2, THEN conjunct1]
      asm [THEN conjunct2, THEN conjunct2, THEN conjunct2, THEN conjunct2, THEN conjunct2, THEN conjunct1]
      asm [THEN conjunct2, THEN conjunct2, THEN conjunct2, THEN conjunct2, THEN conjunct2, THEN conjunct2]
    from update_twice [OF h refl]
    show "\<exists>text. update_changelog versionArg today content = Inr text
        \<and> update_changelog versionArg today text = Inr text"
      by (rule exI [where x = "join_with [LF]
        (update_lines version today (split_lines content))"])
  qed
qed

theorem C6_update_idempotent_witness:
  "split_lines changelog_v2 ! 2 = ''## v2.0.0''
   \<and> find_first (\<lambda>l. versionRx_exec ''2.0.0'' l \<noteq> None) (split_lines changelog_v2) = Some 2
   \<and> update_changelog ''2.0.0'' ''2025-01-01'' changelog_v2
       = Inr (join_with [LF] [''# Changelog'', [], ''## [2.0.0] - 2025-01-01'', [], ''### Added'',
                ''- New major release'', []])
   \<and> ''2.0.0'' = strip_v ''v2.0.0''
   \<and> update_changelog ''v2.0.0'' ''2025-01-01'' changelog_v2
       = Inr (join_with [LF] [''# Changelog'', [], ''## [2.0.0] - 2025-01-01'', [], ''### Added'',
                ''- New major release'', []])
   \<and> update_changelog ''v2.0.0'' ''2025-01-01''
         (join_with [LF] [''# Changelog'', [], ''## [2.0.0] - 2025-01-01'', [], ''### Added'',
            ''- New major release'', []])
       = Inr (join_with [LF] [''# Changelog'', [], ''## [2.0.0] - 2025-01-01'', [], ''### Added'',
                ''- New major release'', []])"
proof -
  let ?ls = "split_lines changelog_v2"
  let ?t = "join_with [LF] [''# Changelog'', [], ''## [2.0.0] - 2025-01-01'', [], ''### Added'',
      ''- New major release'', []]"
  have ls: "?ls = [''# Changelog'', [], ''## v2.0.0'', [], ''### Added'', ''- New major release'', []]"
    by code_simp
  have line2: "?ls ! 2 = ''## v2.0.0''"
    by (simp add: ls)
  have f: "find_first (\<lambda>l. versionRx_exec ''2.0.0'' l \<noteq> None) ?ls = Some 2"
    by code_simp
  have pre1: "?ls = split_lines changelog_v2 \<and> 2 < length ?ls \<and> ?ls ! 2 = ''## v2.0.0''
      \<and> (\<forall>j<2. versionRx_exec ''2.0.0'' (?ls ! j) = None)"
  proof (intro conjI)
    show "2 < length ?ls" and "\<forall>j<2. versionRx_exec ''2.0.0'' (?ls ! j) = None"
      using find_first_matchD [OF f] by blast+
  qed (simp_all add: line2)
  have "update_changelog ''2.0.0'' ''2025-01-01'' changelog_v2
      = Inr (join_with [LF] (?ls[2 := ''## [2.0.0] - '' @ ''2025-01-01'']))"
    using C6_update_idempotent [of changelog_v2 "''2025-01-01''", THEN conjunct1,
        rule_format, OF pre1] .
  then have r1: "update_changelog ''2.0.0'' ''2025-01-01'' changelog_v2 = Inr ?t"
    by (simp add: ls)
  have sv: "''2.0.0'' = strip_v ''v2.0.0''"
    by (simp add: strip_v_def)
  have pre2: "''v2.0.0'' \<noteq> [] \<and> ''2.0.0'' = strip_v ''v2.0.0'' \<and> ''2.0.0'' \<noteq> []
      \<and> is_digit (hd ''2.0.0'')
      \<and> (\<forall>c\<in>set ''2.0.0''. c \<noteq> CHR ''$'' \<and> \<not> is_line_terminator c)
      \<and> (\<forall>c\<in>set ''2025-01-01''. c \<noteq> CHR ''$'' \<and> \<not> is_line_terminator c)
      \<and> (\<forall>l\<in>set ?ls. l = [] \<or> last l \<noteq> CR)"
    by (simp add: ls strip_v_def is_digit_def is_line_terminator_def)
  from C6_update_idempotent [of changelog_v2 "''2025-01-01''" "''v2.0.0''" "''2.0.0''",
      THEN conjunct2, rule_format, OF pre2]
  obtain out where t1: "update_changelog ''v2.0.0'' ''2025-01-01'' changelog_v2 = Inr out"
    and t2: "update_changelog ''v2.0.0'' ''2025-01-01'' out = Inr out"
    by blast
  have "update_changelog ''v2.0.0'' ''2025-01-01'' changelog_v2
      = update_changelog ''2.0.0'' ''2025-01-01'' changelog_v2"
    by (simp add: update_changelog_def strip_v_def)
  then have "out = ?t"
    using t1 r1 by simp
  then have r2: "update_changelog ''v2.0.0'' ''2025-01-01'' changelog_v2 = Inr ?t"
    and r3: "update_changelog ''v2.0.0'' ''2025-01-01'' ?t = Inr ?t"
    using t1 t2 by simp_all
  show ?thesis
    by (intro conjI) (fact line2 f r1 sv r2 r3)+
qed

text \<open>
  C6, as the claim states it, fails on a document with a doubled carriage return before
  a line feed: the first update leaves one carriage return in front of the line feed it
  writes, and the second update removes it, so the text changes.
\<close>

theorem C6_carriage_return_counterexample:
  "update_changelog ''2.0.0'' ''2025-01-01'' (''# Changelog'' @ [CR, CR, LF] @ ''## v2.0.0'')
     = Inr (''# Changelog'' @ [CR, LF] @ ''## [2.0.0] - 2025-01-01'')
   \<and> update_changelog ''2.0.0'' ''2025-01-01''
         (''# Changelog'' @ [CR, LF] @ ''## [2.0.0] - 2025-01-01'')
     = Inr (''# Changelog'' @ [LF] @ ''## [2.0.0] - 2025-01-01'')
   \<and> ''# Changelog'' @ [CR, LF] @ ''## [2.0.0] - 2025-01-01''
     \<noteq> ''# Changelog'' @ [LF] @ ''## [2.0.0] - 2025-01-01''"
  by code_simp

end
